theory Spec2Isabelle
  imports Complex_Main "HOL-Library.Multiset"
begin

section \<open>JavaScript numbers\<close>

text \<open>
  The AHP module (\<^verbatim>\<open>utils/ahpCalculations.js\<close>) computes with JavaScript numbers.
  A number is modelled as an exact real, or one of the three special values
  \<^verbatim>\<open>Infinity\<close>, \<^verbatim>\<open>-Infinity\<close> and \<^verbatim>\<open>NaN\<close>, so that a division by zero and a
  root of a negative product are values of the model, as they are in the program.
  The module is given twice. First with arithmetic on finite values exact, which
  is the real function that the program approximates: this reading serves the
  statements about control flow, about which cells are written and about which
  formula is computed. Then, further below, with every operation rounded to
  double precision, overflow and underflow included: this reading serves the
  statements about the numbers the program returns. Zero carries no sign (a zero
  divisor behaves as \<^verbatim>\<open>+0\<close>).
\<close>

datatype jsnum = Num real | PosInf | NegInf | NaN

text \<open>\<^verbatim>\<open>Infinity * a\<close> for a finite \<open>a\<close>; also \<^verbatim>\<open>a / 0\<close>.\<close>

definition inf_times :: "real \<Rightarrow> jsnum" where
  "inf_times a = (if a = 0 then NaN else if 0 < a then PosInf else NegInf)"

fun js_neg :: "jsnum \<Rightarrow> jsnum" where
  "js_neg (Num a) = Num (- a)"
| "js_neg PosInf = NegInf"
| "js_neg NegInf = PosInf"
| "js_neg NaN = NaN"

fun js_add :: "jsnum \<Rightarrow> jsnum \<Rightarrow> jsnum" where
  "js_add (Num a) (Num b) = Num (a + b)"
| "js_add NaN _ = NaN"
| "js_add _ NaN = NaN"
| "js_add PosInf NegInf = NaN"
| "js_add NegInf PosInf = NaN"
| "js_add PosInf _ = PosInf"
| "js_add _ PosInf = PosInf"
| "js_add NegInf _ = NegInf"
| "js_add _ NegInf = NegInf"

definition js_sub :: "jsnum \<Rightarrow> jsnum \<Rightarrow> jsnum" where
  "js_sub x y = js_add x (js_neg y)"

fun js_mul :: "jsnum \<Rightarrow> jsnum \<Rightarrow> jsnum" where
  "js_mul (Num a) (Num b) = Num (a * b)"
| "js_mul NaN _ = NaN"
| "js_mul _ NaN = NaN"
| "js_mul PosInf (Num b) = inf_times b"
| "js_mul (Num a) PosInf = inf_times a"
| "js_mul NegInf (Num b) = inf_times (- b)"
| "js_mul (Num a) NegInf = inf_times (- a)"
| "js_mul PosInf PosInf = PosInf"
| "js_mul NegInf NegInf = PosInf"
| "js_mul PosInf NegInf = NegInf"
| "js_mul NegInf PosInf = NegInf"

fun js_div :: "jsnum \<Rightarrow> jsnum \<Rightarrow> jsnum" where
  "js_div (Num a) (Num b) = (if b = 0 then inf_times a else Num (a / b))"
| "js_div NaN _ = NaN"
| "js_div _ NaN = NaN"
| "js_div (Num a) PosInf = Num 0"
| "js_div (Num a) NegInf = Num 0"
| "js_div PosInf (Num b) = (if b < 0 then NegInf else PosInf)"
| "js_div NegInf (Num b) = (if b < 0 then PosInf else NegInf)"
| "js_div _ _ = NaN"

text \<open>The comparison \<^verbatim>\<open>x < y\<close>: false whenever an operand is \<^verbatim>\<open>NaN\<close>.\<close>

fun js_lt :: "jsnum \<Rightarrow> jsnum \<Rightarrow> bool" where
  "js_lt (Num a) (Num b) = (a < b)"
| "js_lt NaN _ = False"
| "js_lt _ NaN = False"
| "js_lt _ NegInf = False"
| "js_lt PosInf _ = False"
| "js_lt NegInf _ = True"
| "js_lt _ PosInf = True"

definition is_integer :: "real \<Rightarrow> bool" where
  "is_integer e = (e = of_int \<lfloor>e\<rfloor>)"

definition odd_integer :: "real \<Rightarrow> bool" where
  "odd_integer e = (is_integer e \<and> odd \<lfloor>e\<rfloor>)"

text \<open>
  \<^verbatim>\<open>Math.pow(base, exponent)\<close>, by the cases of the language standard. On finite
  operands the result is the exact power; a negative base with a fractional
  exponent gives \<^verbatim>\<open>NaN\<close>.
\<close>

fun Math_pow :: "jsnum \<Rightarrow> jsnum \<Rightarrow> jsnum" where
  "Math_pow _ NaN = NaN"
| "Math_pow b (Num e) =
     (if e = 0 then Num 1
      else case b of
        NaN \<Rightarrow> NaN
      | PosInf \<Rightarrow> (if 0 < e then PosInf else Num 0)
      | NegInf \<Rightarrow> (if 0 < e then (if odd_integer e then NegInf else PosInf) else Num 0)
      | Num x \<Rightarrow>
          (if x = 0 then (if 0 < e then Num 0 else PosInf)
           else if 0 < x then Num (x powr e)
           else if is_integer e
             then Num ((if odd_integer e then - 1 else 1) * ((- x) powr e))
           else NaN))"
| "Math_pow b PosInf =
     (case b of
        NaN \<Rightarrow> NaN
      | Num x \<Rightarrow> (if 1 < \<bar>x\<bar> then PosInf else if \<bar>x\<bar> = 1 then NaN else Num 0)
      | _ \<Rightarrow> PosInf)"
| "Math_pow b NegInf =
     (case b of
        NaN \<Rightarrow> NaN
      | Num x \<Rightarrow> (if 1 < \<bar>x\<bar> then Num 0 else if \<bar>x\<bar> = 1 then NaN else PosInf)
      | _ \<Rightarrow> Num 0)"

text \<open>
  A property read \<^verbatim>\<open>obj[key]\<close> gives \<^verbatim>\<open>undefined\<close> (\<open>None\<close>) or the stored
  number. In a condition, \<^verbatim>\<open>undefined\<close>, \<^verbatim>\<open>0\<close> and \<^verbatim>\<open>NaN\<close> are falsy and every
  other number is truthy.
\<close>

fun truthy :: "jsnum option \<Rightarrow> bool" where
  "truthy None = False"
| "truthy (Some (Num a)) = (a \<noteq> 0)"
| "truthy (Some NaN) = False"
| "truthy (Some _) = True"

text \<open>
  A value read from an array or an object and used in arithmetic: \<^verbatim>\<open>undefined\<close>
  converts to \<^verbatim>\<open>NaN\<close>.
\<close>

fun to_number :: "jsnum option \<Rightarrow> jsnum" where
  "to_number None = NaN"
| "to_number (Some v) = v"

text \<open>\<^verbatim>\<open>xs[i]\<close> on an array: \<^verbatim>\<open>undefined\<close> beyond the end.\<close>

definition js_index :: "'a list \<Rightarrow> nat \<Rightarrow> 'a option" where
  "js_index xs i = (if i < length xs then Some (xs ! i) else None)"

text \<open>
  \<^verbatim>\<open>LHS || RHS\<close>: the left operand when it is truthy, otherwise the right one.
\<close>

definition js_or :: "jsnum option \<Rightarrow> jsnum \<Rightarrow> jsnum" where
  "js_or l r = (if truthy l then to_number l else r)"

section \<open>The comparison matrix\<close>

type_synonym matrix = "jsnum list list"

text \<open>
  The judgments object maps a key \<^verbatim>\<open>"A-B"\<close> to a number. Every key the builder
  reads contains a \<^verbatim>\<open>-\<close>, so no property inherited from \<^verbatim>\<open>Object.prototype\<close> is
  ever found and the object is a finite map of its own properties.
\<close>

type_synonym comparisons = "string \<rightharpoonup> jsnum"

text \<open>\<^verbatim>\<open>matrix[i][j] = v\<close>\<close>

definition setCell :: "matrix \<Rightarrow> nat \<Rightarrow> nat \<Rightarrow> jsnum \<Rightarrow> matrix" where
  "setCell matrix i j v = matrix[i := (matrix ! i)[j := v]]"

text \<open>The template literal \<^verbatim>\<open>`${a}-${b}`\<close>.\<close>

definition pairKey :: "string \<Rightarrow> string \<Rightarrow> string" where
  "pairKey a b = a @ ''-'' @ b"

text \<open>The body of the inner loop of \<^verbatim>\<open>buildComparisonMatrix\<close>, for one pair \<open>i < j\<close>.\<close>

definition fillPair :: "string list \<Rightarrow> comparisons \<Rightarrow> nat \<Rightarrow> nat \<Rightarrow> matrix \<Rightarrow> matrix" where
  "fillPair criteria comparisons i j matrix =
     (let key = pairKey (criteria ! i) (criteria ! j);
          reverseKey = pairKey (criteria ! j) (criteria ! i)
      in if truthy (comparisons key) then
           setCell (setCell matrix i j (to_number (comparisons key)))
             j i (js_div (Num 1) (to_number (comparisons key)))
         else if truthy (comparisons reverseKey) then
           setCell (setCell matrix j i (to_number (comparisons reverseKey)))
             i j (js_div (Num 1) (to_number (comparisons reverseKey)))
         else
           setCell (setCell matrix i j (Num 1)) j i (Num 1))"

text \<open>
  \<^verbatim>\<open>buildComparisonMatrix(criteria, comparisons)\<close>: an \<open>n \<times> n\<close> array of ones, then
  the two loops \<^verbatim>\<open>for i in 0..n-1\<close>, \<^verbatim>\<open>for j in i+1..n-1\<close>.
\<close>

definition buildComparisonMatrix :: "string list \<Rightarrow> comparisons \<Rightarrow> matrix" where
  "buildComparisonMatrix criteria comparisons =
     (let n = length criteria;
          matrix = replicate n (replicate n (Num 1))
      in fold (\<lambda>i m. fold (\<lambda>j m'. fillPair criteria comparisons i j m') [i + 1 ..< n] m)
           [0 ..< n] matrix)"

section \<open>Weights\<close>

text \<open>
  The first loop of \<^verbatim>\<open>calculateWeights\<close>: the product of the first \<open>n\<close> cells of
  a row, and its \<open>n\<close>-th root. A cell beyond the end of a row reads \<^verbatim>\<open>undefined\<close>.
\<close>

definition rowProduct :: "nat \<Rightarrow> jsnum list \<Rightarrow> jsnum" where
  "rowProduct n row = fold (\<lambda>j product. js_mul product (to_number (js_index row j))) [0 ..< n] (Num 1)"

definition geometricMeans :: "matrix \<Rightarrow> jsnum list" where
  "geometricMeans matrix =
     (let n = length matrix
      in map (\<lambda>i. Math_pow (rowProduct n (matrix ! i)) (js_div (Num 1) (Num (real n)))) [0 ..< n])"

text \<open>\<^verbatim>\<open>weights.reduce((acc, w) => acc + w, 0)\<close>\<close>

definition sumWeights :: "jsnum list \<Rightarrow> jsnum" where
  "sumWeights weights = fold (\<lambda>w acc. js_add acc w) weights (Num 0)"

definition calculateWeights :: "matrix \<Rightarrow> jsnum list" where
  "calculateWeights matrix =
     (let weights = geometricMeans matrix;
          sum' = sumWeights weights
      in map (\<lambda>w. js_div w sum') weights)"

section \<open>Consistency\<close>

text \<open>The Random Index table \<^verbatim>\<open>RANDOM_INDEX\<close>.\<close>

definition RANDOM_INDEX :: "nat \<Rightarrow> jsnum option" where
  "RANDOM_INDEX n =
     (if n = 1 then Some (Num 0)
      else if n = 2 then Some (Num 0)
      else if n = 3 then Some (Num 0.58)
      else if n = 4 then Some (Num 0.90)
      else if n = 5 then Some (Num 1.12)
      else if n = 6 then Some (Num 1.24)
      else if n = 7 then Some (Num 1.32)
      else if n = 8 then Some (Num 1.41)
      else if n = 9 then Some (Num 1.45)
      else if n = 10 then Some (Num 1.49)
      else None)"

text \<open>The matrix-vector product of \<^verbatim>\<open>calculateLambdaMax\<close>, one row.\<close>

definition weightedSumRow :: "nat \<Rightarrow> jsnum list \<Rightarrow> jsnum list \<Rightarrow> jsnum" where
  "weightedSumRow n row weights =
     fold (\<lambda>j s. js_add s (js_mul (to_number (js_index row j)) (to_number (js_index weights j))))
       [0 ..< n] (Num 0)"

definition calculateLambdaMax :: "matrix \<Rightarrow> jsnum list \<Rightarrow> jsnum" where
  "calculateLambdaMax matrix weights =
     (let n = length matrix;
          weightedSum = map (\<lambda>i. weightedSumRow n (matrix ! i) weights) [0 ..< n];
          lambdaMax = fold (\<lambda>i l. js_add l (js_div (weightedSum ! i) (to_number (js_index weights i))))
                        [0 ..< n] (Num 0)
      in js_div lambdaMax (Num (real n)))"

definition calculateCI :: "jsnum \<Rightarrow> nat \<Rightarrow> jsnum" where
  "calculateCI lambdaMax n = js_div (js_sub lambdaMax (Num (real n))) (js_sub (Num (real n)) (Num 1))"

definition calculateConsistencyRatio :: "matrix \<Rightarrow> jsnum list \<Rightarrow> jsnum" where
  "calculateConsistencyRatio matrix weights =
     (let n = length matrix
      in if n < 3 then Num 0
         else let lambdaMax = calculateLambdaMax matrix weights;
                  CI = calculateCI lambdaMax n;
                  RI = js_or (RANDOM_INDEX n) (Num 1.49)
              in js_div CI RI)"

definition isConsistent :: "jsnum \<Rightarrow> bool" where
  "isConsistent cr = js_lt cr (Num 0.1)"

section \<open>The entry point\<close>

record ahp_result =
  weights :: "string \<rightharpoonup> jsnum"
  consistencyRatio :: jsnum
  isConsistent_flag :: bool

text \<open>
  \<^verbatim>\<open>criteria.forEach((criterion, index) => { weights[criterion] = weightArray[index] })\<close>:
  a later duplicate of a label overwrites the earlier one. A property that holds
  \<^verbatim>\<open>undefined\<close> reads like an absent one. Labels are taken to be ordinary property
  names (an assignment to the name \<^verbatim>\<open>__proto__\<close>, which JavaScript treats specially, is
  not modelled).
\<close>

definition weightsObject :: "string list \<Rightarrow> jsnum list \<Rightarrow> (string \<rightharpoonup> jsnum)" where
  "weightsObject criteria weightArray =
     fold (\<lambda>index w. w(criteria ! index := js_index weightArray index))
       [0 ..< length criteria] Map.empty"

definition calculateAHPWeights :: "string list \<Rightarrow> comparisons \<Rightarrow> ahp_result" where
  "calculateAHPWeights criteria comparisons =
     (let matrix = buildComparisonMatrix criteria comparisons;
          weightArray = calculateWeights matrix;
          cr = calculateConsistencyRatio matrix weightArray
      in \<lparr> weights = weightsObject criteria weightArray,
           consistencyRatio = cr,
           isConsistent_flag = isConsistent cr \<rparr>)"

text \<open>
  None of the functions above contains a \<^verbatim>\<open>throw\<close>, and on a list of strings and an
  object of numbers none of their operations (array and property reads,
  arithmetic, \<^verbatim>\<open>Math.pow\<close>) can raise: every call completes and returns its value.
  The outcome of a call, as a caller that catches exceptions sees it:
\<close>

datatype error = InvalidInputError

definition buildComparisonMatrix_outcome :: "string list \<Rightarrow> comparisons \<Rightarrow> error + matrix" where
  "buildComparisonMatrix_outcome criteria comparisons = Inr (buildComparisonMatrix criteria comparisons)"

definition calculateAHPWeights_outcome :: "string list \<Rightarrow> comparisons \<Rightarrow> error + ahp_result" where
  "calculateAHPWeights_outcome criteria comparisons = Inr (calculateAHPWeights criteria comparisons)"

section \<open>Double-precision arithmetic\<close>

text \<open>
  The program computes in IEEE 754 double precision. Every arithmetic operation
  returns the exact result rounded to the nearest double, ties to the double with
  an even significand; a result of magnitude \<open>2^1024\<close> or more after rounding
  becomes \<^verbatim>\<open>Infinity\<close>, and below \<open>2^-1022\<close> the doubles are the multiples of
  \<open>2^-1074\<close>, so that a small enough result becomes \<open>0\<close>.

  \<open>pow2 k\<close> is \<open>2^k\<close> for an integer \<open>k\<close>; \<open>binade x\<close> is the exponent \<open>e\<close> with
  \<open>2^e \<le> |x| < 2^(e+1)\<close>; \<open>round_even\<close> rounds a real to the nearest integer, ties
  to the even one; \<open>fl x\<close> is the double nearest to the real \<open>x\<close>.
\<close>

definition pow2 :: "int \<Rightarrow> real" where
  "pow2 k = (if 0 \<le> k then 2 ^ nat k else 1 / 2 ^ nat (- k))"

definition round_even :: "real \<Rightarrow> int" where
  "round_even y =
     (let f = \<lfloor>y\<rfloor>; d = y - of_int f
      in if d < 1 / 2 then f else if 1 / 2 < d then f + 1 else if even f then f else f + 1)"

definition binade :: "real \<Rightarrow> int" where
  "binade x = \<lfloor>log 2 \<bar>x\<bar>\<rfloor>"

definition fl :: "real \<Rightarrow> jsnum" where
  "fl x =
     (if x = 0 then Num 0
      else let u = pow2 (max (binade x) (- 1022) - 52);
               r = of_int (round_even (x / u)) * u
           in if 2 ^ 1024 \<le> \<bar>r\<bar> then (if 0 < x then PosInf else NegInf) else Num r)"

text \<open>Rounding the result of an operation: the special values are kept.\<close>

fun rnd :: "jsnum \<Rightarrow> jsnum" where
  "rnd (Num a) = fl a"
| "rnd x = x"

text \<open>
  The operators \<^verbatim>\<open>+\<close>, \<^verbatim>\<open>-\<close>, \<^verbatim>\<open>*\<close> and \<^verbatim>\<open>/\<close> on doubles. \<^verbatim>\<open>Math.pow\<close> is taken
  as correctly rounded; the language standard leaves its accuracy to the
  implementation, and fixes only the special cases, which \<open>Math_pow\<close> has.
\<close>

definition fl_add :: "jsnum \<Rightarrow> jsnum \<Rightarrow> jsnum" where
  "fl_add x y = rnd (js_add x y)"


definition fl_mul :: "jsnum \<Rightarrow> jsnum \<Rightarrow> jsnum" where
  "fl_mul x y = rnd (js_mul x y)"

definition fl_div :: "jsnum \<Rightarrow> jsnum \<Rightarrow> jsnum" where
  "fl_div x y = rnd (js_div x y)"

definition Math_pow_ieee :: "jsnum \<Rightarrow> jsnum \<Rightarrow> jsnum" where
  "Math_pow_ieee b e = rnd (Math_pow b e)"

section \<open>The module in double-precision arithmetic\<close>

text \<open>
  The functions of the module once more, line by line as above, with every
  arithmetic operation rounded. A numeric literal of the source is the double
  nearest to it.
\<close>

definition fillPair_ieee :: "string list \<Rightarrow> comparisons \<Rightarrow> nat \<Rightarrow> nat \<Rightarrow> matrix \<Rightarrow> matrix" where
  "fillPair_ieee criteria comparisons i j matrix =
     (let key = pairKey (criteria ! i) (criteria ! j);
          reverseKey = pairKey (criteria ! j) (criteria ! i)
      in if truthy (comparisons key) then
           setCell (setCell matrix i j (to_number (comparisons key)))
             j i (fl_div (Num 1) (to_number (comparisons key)))
         else if truthy (comparisons reverseKey) then
           setCell (setCell matrix j i (to_number (comparisons reverseKey)))
             i j (fl_div (Num 1) (to_number (comparisons reverseKey)))
         else
           setCell (setCell matrix i j (Num 1)) j i (Num 1))"

definition buildComparisonMatrix_ieee :: "string list \<Rightarrow> comparisons \<Rightarrow> matrix" where
  "buildComparisonMatrix_ieee criteria comparisons =
     (let n = length criteria;
          matrix = replicate n (replicate n (Num 1))
      in fold (\<lambda>i m. fold (\<lambda>j m'. fillPair_ieee criteria comparisons i j m') [i + 1 ..< n] m)
           [0 ..< n] matrix)"

definition rowProduct_ieee :: "nat \<Rightarrow> jsnum list \<Rightarrow> jsnum" where
  "rowProduct_ieee n row =
     fold (\<lambda>j product. fl_mul product (to_number (js_index row j))) [0 ..< n] (Num 1)"

definition geometricMeans_ieee :: "matrix \<Rightarrow> jsnum list" where
  "geometricMeans_ieee matrix =
     (let n = length matrix
      in map (\<lambda>i. Math_pow_ieee (rowProduct_ieee n (matrix ! i)) (fl_div (Num 1) (Num (real n))))
           [0 ..< n])"

definition sumWeights_ieee :: "jsnum list \<Rightarrow> jsnum" where
  "sumWeights_ieee weights' = fold (\<lambda>w acc. fl_add acc w) weights' (Num 0)"

definition calculateWeights_ieee :: "matrix \<Rightarrow> jsnum list" where
  "calculateWeights_ieee matrix =
     (let weights' = geometricMeans_ieee matrix;
          sum' = sumWeights_ieee weights'
      in map (\<lambda>w. fl_div w sum') weights')"








definition buildComparisonMatrix_ieee_outcome :: "string list \<Rightarrow> comparisons \<Rightarrow> error + matrix" where
  "buildComparisonMatrix_ieee_outcome criteria comparisons =
     Inr (buildComparisonMatrix_ieee criteria comparisons)"

section \<open>Auxiliary notions for the proofs\<close>

text \<open>The real value of a finite number, and the tests for finite and for positive finite.\<close>

fun val :: "jsnum \<Rightarrow> real" where
  "val (Num a) = a"
| "val _ = 0"

fun fin :: "jsnum \<Rightarrow> bool" where
  "fin (Num a) = True"
| "fin _ = False"

fun pos :: "jsnum \<Rightarrow> bool" where
  "pos (Num a) = (0 < a)"
| "pos _ = False"

text \<open>An \<open>n \<times> n\<close> array of arrays.\<close>

definition dims :: "nat \<Rightarrow> matrix \<Rightarrow> bool" where
  "dims n m = (length m = n \<and> (\<forall>row \<in> set m. length row = n))"

text \<open>
  What the loop body writes for a pair \<open>i < j\<close>: into \<^verbatim>\<open>matrix[i][j]\<close> and into
  \<^verbatim>\<open>matrix[j][i]\<close>.
\<close>

definition cellUpper :: "string list \<Rightarrow> comparisons \<Rightarrow> nat \<Rightarrow> nat \<Rightarrow> jsnum" where
  "cellUpper c cmp i j =
     (if truthy (cmp (pairKey (c ! i) (c ! j))) then to_number (cmp (pairKey (c ! i) (c ! j)))
      else if truthy (cmp (pairKey (c ! j) (c ! i)))
        then js_div (Num 1) (to_number (cmp (pairKey (c ! j) (c ! i))))
      else Num 1)"

definition cellLower :: "string list \<Rightarrow> comparisons \<Rightarrow> nat \<Rightarrow> nat \<Rightarrow> jsnum" where
  "cellLower c cmp i j =
     (if truthy (cmp (pairKey (c ! i) (c ! j)))
        then js_div (Num 1) (to_number (cmp (pairKey (c ! i) (c ! j))))
      else if truthy (cmp (pairKey (c ! j) (c ! i))) then to_number (cmp (pairKey (c ! j) (c ! i)))
      else Num 1)"

text \<open>
  Every judgment the builder can read for a pair of listed criteria is a positive
  finite number. A mapping all of whose values are positive satisfies this.
\<close>

definition positiveJudgments :: "string list \<Rightarrow> comparisons \<Rightarrow> bool" where
  "positiveJudgments criteria comparisons =
     (\<forall>a \<in> set criteria. \<forall>b \<in> set criteria. \<forall>v.
        comparisons (pairKey a b) = Some v \<longrightarrow> pos v)"

text \<open>The Random Index used for a matrix of order \<open>n \<ge> 3\<close>, as a real.\<close>

definition RI :: "nat \<Rightarrow> real" where
  "RI n = (if n = 3 then 0.58 else if n = 4 then 0.90 else if n = 5 then 1.12
     else if n = 6 then 1.24 else if n = 7 then 1.32 else if n = 8 then 1.41
     else if n = 9 then 1.45 else 1.49)"

text \<open>
  Where two distinct listed criteria have truthy judgments under both keys,
  \<^verbatim>\<open>"a-b"\<close> and \<^verbatim>\<open>"b-a"\<close>, each is the reciprocal \<^verbatim>\<open>1 / value\<close> of the other.
  A mapping that supplies at most one direction per pair satisfies this.
\<close>

definition directionsAgree :: "string list \<Rightarrow> comparisons \<Rightarrow> bool" where
  "directionsAgree criteria comparisons =
     (\<forall>a \<in> set criteria. \<forall>b \<in> set criteria.
        a \<noteq> b \<longrightarrow> truthy (comparisons (pairKey a b)) \<longrightarrow>
        truthy (comparisons (pairKey b a)) \<longrightarrow>
        to_number (comparisons (pairKey a b))
          = js_div (Num 1) (to_number (comparisons (pairKey b a))))"

text \<open>
  The matrix cell of row \<open>a\<close> and column \<open>b\<close>, by criterion names: the value under
  \<^verbatim>\<open>"a-b"\<close>, else the reciprocal of the value under \<^verbatim>\<open>"b-a"\<close>, else \<open>1\<close>. Under
  \<open>directionsAgree\<close> this is what the builder writes, whichever of the two criteria
  comes first in the list.
\<close>

definition entryOf :: "comparisons \<Rightarrow> string \<Rightarrow> string \<Rightarrow> jsnum" where
  "entryOf cmp a b =
     (if a = b then Num 1
      else if truthy (cmp (pairKey a b)) then to_number (cmp (pairKey a b))
      else if truthy (cmp (pairKey b a)) then js_div (Num 1) (to_number (cmp (pairKey b a)))
      else Num 1)"

text \<open>Two mappings state the same judgments about the listed criteria.\<close>

definition sameJudgments :: "string list \<Rightarrow> comparisons \<Rightarrow> comparisons \<Rightarrow> bool" where
  "sameJudgments criteria comparisons' comparisons =
     (\<forall>a \<in> set criteria. \<forall>b \<in> set criteria.
        entryOf comparisons' a b = entryOf comparisons a b)"

text \<open>
  The computation of \<^verbatim>\<open>calculateAHPWeights\<close> with rows and columns addressed by
  criterion name instead of by index, for a matrix given by its cells \<open>E a b\<close>.
\<close>

definition namedProduct :: "(string \<Rightarrow> string \<Rightarrow> jsnum) \<Rightarrow> string list \<Rightarrow> string \<Rightarrow> jsnum" where
  "namedProduct E c a = fold (\<lambda>b p. js_mul p (E a b)) c (Num 1)"

definition namedMean :: "(string \<Rightarrow> string \<Rightarrow> jsnum) \<Rightarrow> string list \<Rightarrow> string \<Rightarrow> jsnum" where
  "namedMean E c a = Math_pow (namedProduct E c a) (js_div (Num 1) (Num (real (length c))))"

definition namedWeight :: "(string \<Rightarrow> string \<Rightarrow> jsnum) \<Rightarrow> string list \<Rightarrow> string \<Rightarrow> jsnum" where
  "namedWeight E c a = js_div (namedMean E c a) (sumWeights (map (namedMean E c) c))"

definition namedRow :: "(string \<Rightarrow> string \<Rightarrow> jsnum) \<Rightarrow> string list \<Rightarrow> string \<Rightarrow> jsnum" where
  "namedRow E c a = fold (\<lambda>b s. js_add s (js_mul (E a b) (namedWeight E c b))) c (Num 0)"

definition namedLambda :: "(string \<Rightarrow> string \<Rightarrow> jsnum) \<Rightarrow> string list \<Rightarrow> jsnum" where
  "namedLambda E c =
     js_div (fold (\<lambda>a l. js_add l (js_div (namedRow E c a) (namedWeight E c a))) c (Num 0))
       (Num (real (length c)))"

definition namedResult :: "(string \<Rightarrow> string \<Rightarrow> jsnum) \<Rightarrow> string list \<Rightarrow> ahp_result" where
  "namedResult E c =
     (let cr = (if length c < 3 then Num 0
                else js_div (calculateCI (namedLambda E c) (length c))
                       (js_or (RANDOM_INDEX (length c)) (Num 1.49)))
      in \<lparr> weights = (\<lambda>s. if s \<in> set c then Some (namedWeight E c s) else None),
           consistencyRatio = cr,
           isConsistent_flag = isConsistent cr \<rparr>)"

text \<open>The two cells the loop body writes for a pair \<open>i < j\<close>, in double precision.\<close>

definition cellUpper_ieee :: "string list \<Rightarrow> comparisons \<Rightarrow> nat \<Rightarrow> nat \<Rightarrow> jsnum" where
  "cellUpper_ieee c cmp i j =
     (if truthy (cmp (pairKey (c ! i) (c ! j))) then to_number (cmp (pairKey (c ! i) (c ! j)))
      else if truthy (cmp (pairKey (c ! j) (c ! i)))
        then fl_div (Num 1) (to_number (cmp (pairKey (c ! j) (c ! i))))
      else Num 1)"

definition cellLower_ieee :: "string list \<Rightarrow> comparisons \<Rightarrow> nat \<Rightarrow> nat \<Rightarrow> jsnum" where
  "cellLower_ieee c cmp i j =
     (if truthy (cmp (pairKey (c ! i) (c ! j)))
        then fl_div (Num 1) (to_number (cmp (pairKey (c ! i) (c ! j))))
      else if truthy (cmp (pairKey (c ! j) (c ! i))) then to_number (cmp (pairKey (c ! j) (c ! i)))
      else Num 1)"

text \<open>A number between \<open>2^a\<close> and \<open>2^b\<close>.\<close>

definition inRange :: "int \<Rightarrow> int \<Rightarrow> jsnum \<Rightarrow> bool" where
  "inRange a b x = (case x of Num r \<Rightarrow> pow2 a \<le> r \<and> r \<le> pow2 b | _ \<Rightarrow> False)"

text \<open>
  Every judgment the builder can read for a pair of listed criteria is a number
  between \<open>2^lo\<close> and \<open>2^hi\<close>. With \<open>lo = -4\<close> and \<open>hi = 4\<close> this is the range from \<open>1/16\<close>
  to \<open>16\<close>, which holds the judgments \<open>1/9, \<dots>, 9\<close> of the usual scale; with
  \<open>lo = -1022\<close> and \<open>hi = 1022\<close> it is the normal range of doubles, less its last
  binade.
\<close>

definition judgmentsWithin :: "int \<Rightarrow> int \<Rightarrow> string list \<Rightarrow> comparisons \<Rightarrow> bool" where
  "judgmentsWithin lo hi criteria comparisons =
     (\<forall>a \<in> set criteria. \<forall>b \<in> set criteria.
        case comparisons (pairKey a b) of None \<Rightarrow> True | Some v \<Rightarrow> inRange lo hi v)"




section \<open>Finite and positive numbers\<close>

lemma fin_Num: "fin x \<Longrightarrow> x = Num (val x)"
  by (cases x) simp_all

lemma pos_Num: "pos x \<Longrightarrow> x = Num (val x) \<and> 0 < val x"
  by (cases x) simp_all

lemma pos_fin: "pos x \<Longrightarrow> fin x"
  by (cases x) simp_all

section \<open>The matrix builder, cell by cell\<close>

lemma dims_nth: "dims n m \<Longrightarrow> a < n \<Longrightarrow> length (m ! a) = n"
  by (simp add: dims_def)

lemma dims_setCell: "dims n m \<Longrightarrow> dims n (setCell m i j v)"
proof (cases "i < length m")
  case True
  assume d: "dims n m"
  have "length ((m ! i)[j := v]) = n" using d True by (simp add: dims_def)
  moreover have "set (m[i := (m ! i)[j := v]]) \<subseteq> insert ((m ! i)[j := v]) (set m)"
    by (rule set_update_subset_insert)
  ultimately show ?thesis using d by (auto simp: dims_def setCell_def)
next
  case False
  assume "dims n m"
  then show ?thesis using False by (simp add: setCell_def list_update_beyond)
qed

lemma setCell_nth:
  "dims n m \<Longrightarrow> i < n \<Longrightarrow> j < n \<Longrightarrow> a < n \<Longrightarrow> b < n \<Longrightarrow>
   setCell m i j v ! a ! b = (if a = i \<and> b = j then v else m ! a ! b)"
  by (auto simp: dims_def setCell_def nth_list_update)

lemma dims_fillPair: "dims n m \<Longrightarrow> dims n (fillPair c cmp i j m)"
  by (simp add: fillPair_def Let_def dims_setCell)

lemma fillPair_nth:
  assumes "dims n m" "i < n" "j < n" "i \<noteq> j" "a < n" "b < n"
  shows "fillPair c cmp i j m ! a ! b =
    (if a = i \<and> b = j then cellUpper c cmp i j
     else if a = j \<and> b = i then cellLower c cmp i j
     else m ! a ! b)"
  using assms
  by (auto simp: fillPair_def Let_def cellUpper_def cellLower_def setCell_nth[of n] dims_setCell)

lemma dims_inner:
  "dims n m \<Longrightarrow> dims n (fold (fillPair c cmp i) js m)"
  by (induction js arbitrary: m) (simp_all add: dims_fillPair)

lemma inner_nth:
  assumes "dims n m" "i < n" "\<forall>j \<in> set js. j < n \<and> i \<noteq> j" "a < n" "b < n"
  shows "fold (fillPair c cmp i) js m ! a ! b =
    (if a = i \<and> b \<in> set js then cellUpper c cmp i b
     else if b = i \<and> a \<in> set js then cellLower c cmp i a
     else m ! a ! b)"
  using assms
proof (induction js arbitrary: m)
  case Nil
  then show ?case by simp
next
  case (Cons j js)
  have d: "dims n (fillPair c cmp i j m)" using Cons.prems(1) by (rule dims_fillPair)
  have "fold (fillPair c cmp i) (j # js) m ! a ! b
      = fold (fillPair c cmp i) js (fillPair c cmp i j m) ! a ! b" by simp
  also have "\<dots> = (if a = i \<and> b \<in> set js then cellUpper c cmp i b
     else if b = i \<and> a \<in> set js then cellLower c cmp i a
     else fillPair c cmp i j m ! a ! b)"
    using Cons.prems by (intro Cons.IH[OF d]) auto
  also have "\<dots> = (if a = i \<and> b \<in> set (j # js) then cellUpper c cmp i b
     else if b = i \<and> a \<in> set (j # js) then cellLower c cmp i a
     else m ! a ! b)"
    using Cons.prems by (auto simp: fillPair_nth[of n])
  finally show ?case .
qed

lemma dims_outer:
  "dims n m \<Longrightarrow>
   dims n (fold (\<lambda>i. fold (fillPair c cmp i) [Suc i ..< n]) is m)"
  by (induction "is" arbitrary: m) (simp_all add: dims_inner)

lemma outer_nth:
  assumes "dims n m" "\<forall>i \<in> set is. i < n" "a < n" "b < n"
  shows "fold (\<lambda>i. fold (fillPair c cmp i) [Suc i ..< n]) is m ! a ! b =
    (if a \<in> set is \<and> a < b then cellUpper c cmp a b
     else if b \<in> set is \<and> b < a then cellLower c cmp b a
     else m ! a ! b)"
  using assms
proof (induction "is" arbitrary: m)
  case Nil
  then show ?case by simp
next
  case (Cons i "is")
  let ?m' = "fold (fillPair c cmp i) [Suc i ..< n] m"
  have d: "dims n ?m'" using Cons.prems(1) by (rule dims_inner)
  have i: "i < n" using Cons.prems(2) by simp
  have step: "?m' ! a ! b =
    (if a = i \<and> i < b then cellUpper c cmp i b
     else if b = i \<and> i < a then cellLower c cmp i a
     else m ! a ! b)"
    using Cons.prems(1,3,4) i by (subst inner_nth[of n]) auto
  have "fold (\<lambda>i. fold (fillPair c cmp i) [Suc i ..< n]) (i # is) m ! a ! b
      = fold (\<lambda>i. fold (fillPair c cmp i) [Suc i ..< n]) is ?m' ! a ! b"
    by simp
  also have "\<dots> = (if a \<in> set is \<and> a < b then cellUpper c cmp a b
     else if b \<in> set is \<and> b < a then cellLower c cmp b a
     else ?m' ! a ! b)"
    using Cons.prems by (intro Cons.IH[OF d]) auto
  also have "\<dots> = (if a \<in> set (i # is) \<and> a < b then cellUpper c cmp a b
     else if b \<in> set (i # is) \<and> b < a then cellLower c cmp b a
     else m ! a ! b)"
    unfolding step by auto
  finally show ?case .
qed

lemma dims_replicate: "dims n (replicate n (replicate n v))"
  by (simp add: dims_def)

lemma dims_build: "dims (length c) (buildComparisonMatrix c cmp)"
  by (simp add: buildComparisonMatrix_def Let_def dims_outer dims_replicate)

lemma build_nth:
  assumes "a < length c" "b < length c"
  shows "buildComparisonMatrix c cmp ! a ! b =
    (if a < b then cellUpper c cmp a b else if b < a then cellLower c cmp b a else Num 1)"
  using assms
  by (simp add: buildComparisonMatrix_def Let_def outer_nth[of "length c"] dims_replicate)

lemma build_length: "length (buildComparisonMatrix c cmp) = length c"
  using dims_build[of c cmp] by (simp add: dims_def)

lemma build_row_length: "a < length c \<Longrightarrow> length (buildComparisonMatrix c cmp ! a) = length c"
  using dims_build[of c cmp] by (rule dims_nth)

lemma build_upper:
  "i < j \<Longrightarrow> j < length c \<Longrightarrow> buildComparisonMatrix c cmp ! i ! j = cellUpper c cmp i j"
  by (simp add: build_nth)

lemma build_lower:
  "i < j \<Longrightarrow> j < length c \<Longrightarrow> buildComparisonMatrix c cmp ! j ! i = cellLower c cmp i j"
  by (simp add: build_nth)

lemma build_diag: "i < length c \<Longrightarrow> buildComparisonMatrix c cmp ! i ! i = Num 1"
  by (simp add: build_nth)

lemma positive_lookup:
  assumes "positiveJudgments c cmp" "i < length c" "j < length c"
  shows "cmp (pairKey (c ! i) (c ! j)) = None \<or>
    (\<exists>r. cmp (pairKey (c ! i) (c ! j)) = Some (Num r) \<and> 0 < r)"
proof (cases "cmp (pairKey (c ! i) (c ! j))")
  case None
  then show ?thesis by simp
next
  case (Some v)
  have "pos v" using assms Some unfolding positiveJudgments_def by (meson nth_mem)
  then show ?thesis using Some pos_Num[of v] by (cases v) simp_all
qed

lemma cells_positive:
  assumes "positiveJudgments c cmp" "i < length c" "j < length c"
  shows "pos (cellUpper c cmp i j)" and "pos (cellLower c cmp i j)"
    and "js_mul (cellUpper c cmp i j) (cellLower c cmp i j) = Num 1"
    and "js_mul (cellLower c cmp i j) (cellUpper c cmp i j) = Num 1"
  using positive_lookup[OF assms] positive_lookup[OF assms(1) assms(3) assms(2)]
  by (auto simp: cellUpper_def cellLower_def)

lemma build_positive:
  assumes "positiveJudgments c cmp" "i < length c" "j < length c"
  shows "pos (buildComparisonMatrix c cmp ! i ! j)"
    and "js_mul (buildComparisonMatrix c cmp ! i ! j) (buildComparisonMatrix c cmp ! j ! i) = Num 1"
  using assms cells_positive[of c cmp i j] cells_positive[of c cmp j i]
  by (auto simp: build_nth)

lemma fillPair_zero:
  assumes "cmp k = Some (Num 0)"
  shows "fillPair c (cmp(k := None)) i j m = fillPair c cmp i j m"
  using assms by (auto simp: fillPair_def Let_def)

lemma build_zero:
  assumes "cmp k = Some (Num 0)"
  shows "buildComparisonMatrix c (cmp(k := None)) = buildComparisonMatrix c cmp"
proof -
  have "fillPair c (cmp(k := None)) = fillPair c cmp"
    using fillPair_zero[of cmp k, OF assms] by (intro ext)
  then show ?thesis by (simp add: buildComparisonMatrix_def)
qed

section \<open>Arithmetic on finite numbers\<close>

lemma rowProduct_fin:
  assumes "n \<le> length row" "\<forall>j < n. fin (row ! j)"
  shows "rowProduct n row = Num (\<Prod>j < n. val (row ! j))"
  using assms unfolding rowProduct_def
proof (induction n)
  case 0
  then show ?case by simp
next
  case (Suc n)
  then have "fold (\<lambda>j product. js_mul product (to_number (js_index row j))) [0..<n] (Num 1)
      = Num (\<Prod>j < n. val (row ! j))" by simp
  moreover have "to_number (js_index row n) = Num (val (row ! n))"
    using Suc.prems fin_Num[of "row ! n"] by (simp add: js_index_def)
  ultimately show ?case by (simp add: mult.commute)
qed

lemma sumWeights_Num: "sumWeights (map (\<lambda>i. Num (f i)) [0 ..< n]) = Num (\<Sum>i < n. f i)"
  unfolding sumWeights_def
  by (induction n) simp_all

lemma weightedSumRow_fin:
  assumes "n \<le> length row" "\<forall>j < n. fin (row ! j)" "n \<le> length w" "\<forall>j < n. fin (w ! j)"
  shows "weightedSumRow n row w = Num (\<Sum>j < n. val (row ! j) * val (w ! j))"
  using assms unfolding weightedSumRow_def
proof (induction n)
  case 0
  then show ?case by simp
next
  case (Suc n)
  then have "fold (\<lambda>j s. js_add s (js_mul (to_number (js_index row j)) (to_number (js_index w j))))
      [0..<n] (Num 0) = Num (\<Sum>j < n. val (row ! j) * val (w ! j))" by simp
  moreover have "to_number (js_index row n) = Num (val (row ! n))"
    using Suc.prems fin_Num[of "row ! n"] by (simp add: js_index_def)
  moreover have "to_number (js_index w n) = Num (val (w ! n))"
    using Suc.prems fin_Num[of "w ! n"] by (simp add: js_index_def)
  ultimately show ?case by simp
qed

lemma lambda_fold_fin:
  assumes "n \<le> length w" "\<forall>i < n. fin (w ! i) \<and> val (w ! i) \<noteq> 0" "n \<le> length ws"
    "\<forall>i < n. ws ! i = Num (g i)"
  shows "fold (\<lambda>i l. js_add l (js_div (ws ! i) (to_number (js_index w i)))) [0 ..< n] (Num 0)
    = Num (\<Sum>i < n. g i / val (w ! i))"
  using assms
proof (induction n)
  case 0
  then show ?case by simp
next
  case (Suc n)
  then have "fold (\<lambda>i l. js_add l (js_div (ws ! i) (to_number (js_index w i)))) [0 ..< n] (Num 0)
    = Num (\<Sum>i < n. g i / val (w ! i))" by simp
  moreover have "to_number (js_index w n) = Num (val (w ! n))" "val (w ! n) \<noteq> 0"
    using Suc.prems fin_Num[of "w ! n"] by (simp_all add: js_index_def)
  moreover have "ws ! n = Num (g n)" using Suc.prems by simp
  ultimately show ?case by simp
qed

lemma calculateLambdaMax_fin:
  assumes "length m = n" "\<forall>i < n. n \<le> length (m ! i) \<and> (\<forall>j < n. fin (m ! i ! j))"
    "n \<le> length w" "\<forall>i < n. fin (w ! i) \<and> val (w ! i) \<noteq> 0" "0 < n"
  shows "calculateLambdaMax m w =
    Num ((\<Sum>i < n. (\<Sum>j < n. val (m ! i ! j) * val (w ! j)) / val (w ! i)) / real n)"
proof -
  let ?ws = "map (\<lambda>i. weightedSumRow n (m ! i) w) [0 ..< n]"
  have ws: "\<forall>i < n. ?ws ! i = Num (\<Sum>j < n. val (m ! i ! j) * val (w ! j))"
    using assms by (simp add: weightedSumRow_fin)
  have "fold (\<lambda>i l. js_add l (js_div (?ws ! i) (to_number (js_index w i)))) [0 ..< n] (Num 0)
    = Num (\<Sum>i < n. (\<Sum>j < n. val (m ! i ! j) * val (w ! j)) / val (w ! i))"
    using assms(3,4) ws by (intro lambda_fold_fin) simp_all
  then show ?thesis using assms(1,5) by (simp add: calculateLambdaMax_def Let_def)
qed

lemma RI_lookup: "3 \<le> n \<Longrightarrow> js_or (RANDOM_INDEX n) (Num 1.49) = Num (RI n)"
  by (simp add: js_or_def RANDOM_INDEX_def RI_def)

lemma RI_pos: "0 < RI n"
  by (simp add: RI_def)

lemma calculateCI_fin: "2 \<le> n \<Longrightarrow> calculateCI (Num l) n = Num ((l - real n) / (real n - 1))"
  by (simp add: calculateCI_def js_sub_def)

lemma calculateConsistencyRatio_fin:
  assumes "length m = n" "\<forall>i < n. n \<le> length (m ! i) \<and> (\<forall>j < n. fin (m ! i ! j))"
    "n \<le> length w" "\<forall>i < n. fin (w ! i) \<and> val (w ! i) \<noteq> 0" "3 \<le> n"
  shows "calculateConsistencyRatio m w =
    Num ((((\<Sum>i < n. (\<Sum>j < n. val (m ! i ! j) * val (w ! j)) / val (w ! i)) / real n - real n)
          / (real n - 1)) / RI n)"
proof -
  have "calculateLambdaMax m w =
    Num ((\<Sum>i < n. (\<Sum>j < n. val (m ! i ! j) * val (w ! j)) / val (w ! i)) / real n)"
    using assms by (intro calculateLambdaMax_fin) simp_all
  moreover have "RI n \<noteq> 0" using RI_pos[of n] by simp
  moreover have "js_or (RANDOM_INDEX n) (Num 1.49) = Num (RI n)"
    using assms(5) by (rule RI_lookup)
  moreover have "\<not> n < 3" "2 \<le> n" using assms(5) by simp_all
  ultimately show ?thesis
    unfolding calculateConsistencyRatio_def Let_def assms(1)
    by (simp only: calculateCI_fin if_False js_div.simps)
qed

lemma geometricMeans_pos:
  assumes "length m = n" "\<forall>i < n. n \<le> length (m ! i) \<and> (\<forall>j < n. pos (m ! i ! j))"
  shows "geometricMeans m = map (\<lambda>i. Num ((\<Prod>j < n. val (m ! i ! j)) powr (1 / real n))) [0 ..< n]"
proof -
  have "Math_pow (rowProduct n (m ! i)) (js_div (Num 1) (Num (real n)))
      = Num ((\<Prod>j < n. val (m ! i ! j)) powr (1 / real n))" if i: "i < n" for i
  proof -
    have "rowProduct n (m ! i) = Num (\<Prod>j < n. val (m ! i ! j))"
      using assms i by (intro rowProduct_fin) (simp_all add: pos_fin)
    moreover have "0 < (\<Prod>j < n. val (m ! i ! j))"
      using assms i by (intro prod_pos) (simp add: pos_Num)
    moreover have "0 < n" using i by simp
    ultimately show ?thesis by simp
  qed
  then show ?thesis using assms(1) by (simp add: geometricMeans_def Let_def)
qed

lemma calculateWeights_pos:
  assumes "length m = n" "\<forall>i < n. n \<le> length (m ! i) \<and> (\<forall>j < n. pos (m ! i ! j))"
  defines "gm \<equiv> \<lambda>i. (\<Prod>j < n. val (m ! i ! j)) powr (1 / real n)"
  shows "calculateWeights m = map (\<lambda>i. Num (gm i / (\<Sum>k < n. gm k))) [0 ..< n]"
    and "sumWeights (geometricMeans m) = Num (\<Sum>k < n. gm k)"
    and "0 < n \<Longrightarrow> 0 < (\<Sum>k < n. gm k)"
    and "i < n \<Longrightarrow> 0 < gm i"
proof -
  have gms: "geometricMeans m = map (\<lambda>i. Num (gm i)) [0 ..< n]"
    unfolding gm_def using assms(1,2) by (rule geometricMeans_pos)
  show s: "sumWeights (geometricMeans m) = Num (\<Sum>k < n. gm k)"
    unfolding gms by (rule sumWeights_Num)
  have gpos: "0 < gm i" if "i < n" for i
  proof -
    have "0 < (\<Prod>j < n. val (m ! i ! j))"
      using assms(2) that by (intro prod_pos) (simp add: pos_Num)
    then have "(\<Prod>j < n. val (m ! i ! j)) \<noteq> 0" by linarith
    then show ?thesis unfolding gm_def by (simp only: powr_gt_zero not_False_eq_True)
  qed
  show "i < n \<Longrightarrow> 0 < gm i" by (rule gpos)
  show tpos: "0 < (\<Sum>k < n. gm k)" if "0 < n"
    using that by (intro sum_pos) (auto simp: gpos)
  show "calculateWeights m = map (\<lambda>i. Num (gm i / (\<Sum>k < n. gm k))) [0 ..< n]"
  proof (cases "n = 0")
    case True
    then show ?thesis using assms(1) by (simp add: calculateWeights_def geometricMeans_def)
  next
    case False
    then have "(\<Sum>k < n. gm k) \<noteq> 0" using tpos by simp
    then show ?thesis by (simp add: calculateWeights_def Let_def s) (simp add: gms)
  qed
qed

lemma recip_sum_ge_2:
  fixes x y :: real
  assumes "0 < x" "0 < y" "x * y = 1"
  shows "2 \<le> x + y"
proof -
  have "(x + y)\<^sup>2 = (x - y)\<^sup>2 + 4 * (x * y)" by (simp add: power2_eq_square algebra_simps)
  also have "\<dots> = (x - y)\<^sup>2 + 4" using assms(3) by simp
  finally have "2\<^sup>2 \<le> (x + y)\<^sup>2" by simp
  moreover have "0 \<le> x + y" using assms(1,2) by simp
  ultimately show ?thesis by (rule power2_le_imp_le)
qed

lemma reciprocal_double_sum:
  fixes f :: "nat \<Rightarrow> nat \<Rightarrow> real"
  assumes "\<And>i j. i < n \<Longrightarrow> j < n \<Longrightarrow> 0 < f i j"
    and "\<And>i j. i < n \<Longrightarrow> j < n \<Longrightarrow> f i j * f j i = 1"
  shows "real n * real n \<le> (\<Sum>i < n. \<Sum>j < n. f i j)"
proof -
  let ?S = "\<Sum>i < n. \<Sum>j < n. f i j"
  have sw: "(\<Sum>i < n. \<Sum>j < n. f j i) = ?S" by (rule sum.swap)
  have "(\<Sum>i < n. \<Sum>j < n. (2::real)) \<le> (\<Sum>i < n. \<Sum>j < n. f i j + f j i)"
    by (intro sum_mono recip_sum_ge_2 assms) simp_all
  also have "\<dots> = ?S + (\<Sum>i < n. \<Sum>j < n. f j i)" by (simp add: sum.distrib)
  also have "\<dots> = 2 * ?S" using sw by simp
  finally show ?thesis by simp
qed

lemma lambda_ge_order:
  fixes M :: "nat \<Rightarrow> nat \<Rightarrow> real" and W :: "nat \<Rightarrow> real"
  assumes "\<And>i j. i < n \<Longrightarrow> j < n \<Longrightarrow> 0 < M i j"
    and "\<And>i j. i < n \<Longrightarrow> j < n \<Longrightarrow> M i j * M j i = 1"
    and "\<And>i. i < n \<Longrightarrow> 0 < W i"
  shows "real n * real n \<le> (\<Sum>i < n. (\<Sum>j < n. M i j * W j) / W i)"
proof -
  have "real n * real n \<le> (\<Sum>i < n. \<Sum>j < n. M i j * W j / W i)"
  proof (rule reciprocal_double_sum)
    fix i j assume "i < n" "j < n"
    then show "0 < M i j * W j / W i" using assms(1,3) by simp
    have "W i \<noteq> 0" "W j \<noteq> 0" using assms(3) \<open>i < n\<close> \<open>j < n\<close> by fastforce+
    then have "M i j * W j / W i * (M j i * W i / W j) = M i j * M j i" by simp
    then show "M i j * W j / W i * (M j i * W i / W j) = 1"
      using assms(2) \<open>i < n\<close> \<open>j < n\<close> by simp
  qed
  then show ?thesis by (simp add: sum_divide_distrib)
qed

section \<open>Reordering the criteria\<close>

text \<open>
  Addition and multiplication of numbers are commutative and associative, the
  special values included, so a sum or a product does not depend on the order of
  its terms.
\<close>

lemma js_add_commute: "js_add x y = js_add y x"
  by (cases x; cases y) simp_all

lemma js_add_assoc: "js_add (js_add x y) z = js_add x (js_add y z)"
  by (cases x; cases y; cases z) simp_all

lemma js_mul_commute: "js_mul x y = js_mul y x"
  by (cases x; cases y) (simp_all add: mult.commute)

lemma js_mul_assoc: "js_mul (js_mul x y) z = js_mul x (js_mul y z)"
  by (cases x; cases y; cases z)
     (auto simp: inf_times_def zero_less_mult_iff mult_less_0_iff mult.assoc)

lemma js_add_right_commute: "js_add (js_add s a) b = js_add (js_add s b) a"
  by (simp add: js_add_assoc js_add_commute[of a b])

lemma js_mul_right_commute: "js_mul (js_mul p a) b = js_mul (js_mul p b) a"
  by (simp add: js_mul_assoc js_mul_commute[of a b])

lemma fold_index: "fold (\<lambda>j. F (xs ! j)) [0 ..< length xs] = fold F xs"
proof -
  have "fold F xs = fold F (map ((!) xs) [0 ..< length xs])" by (simp add: map_nth)
  also have "\<dots> = fold (F \<circ> (!) xs) [0 ..< length xs]" by (simp add: fold_map)
  finally show ?thesis by (simp add: comp_def)
qed

lemma map_index_names: "map (\<lambda>i. f (c ! i)) [0 ..< length c] = map f c"
  by (rule nth_equalityI) simp_all

lemma fold_add_perm:
  assumes "mset xs = mset ys"
  shows "fold (\<lambda>x s. js_add s (g x)) xs z = fold (\<lambda>x s. js_add s (g x)) ys z"
proof -
  have "fold (\<lambda>x s. js_add s (g x)) xs = fold (\<lambda>x s. js_add s (g x)) ys"
  proof (rule fold_multiset_equiv[OF _ assms])
    fix x y
    show "(\<lambda>s. js_add s (g x)) \<circ> (\<lambda>s. js_add s (g y)) = (\<lambda>s. js_add s (g y)) \<circ> (\<lambda>s. js_add s (g x))"
      unfolding comp_def by (rule ext) (rule js_add_right_commute)
  qed
  then show ?thesis by simp
qed

lemma fold_mul_perm:
  assumes "mset xs = mset ys"
  shows "fold (\<lambda>x p. js_mul p (g x)) xs z = fold (\<lambda>x p. js_mul p (g x)) ys z"
proof -
  have "fold (\<lambda>x p. js_mul p (g x)) xs = fold (\<lambda>x p. js_mul p (g x)) ys"
  proof (rule fold_multiset_equiv[OF _ assms])
    fix x y
    show "(\<lambda>p. js_mul p (g x)) \<circ> (\<lambda>p. js_mul p (g y)) = (\<lambda>p. js_mul p (g y)) \<circ> (\<lambda>p. js_mul p (g x))"
      unfolding comp_def by (rule ext) (rule js_mul_right_commute)
  qed
  then show ?thesis by simp
qed

lemma read_map: "j < length c \<Longrightarrow> to_number (js_index (map f c) j) = f (c ! j)"
  by (simp add: js_index_def)

lemma build_entry:
  assumes "distinct c" "directionsAgree c cmp" "i < length c" "j < length c"
  shows "buildComparisonMatrix c cmp ! i ! j = entryOf cmp (c ! i) (c ! j)"
proof -
  have ne: "i \<noteq> j \<Longrightarrow> c ! i \<noteq> c ! j"
    using assms(1,3,4) by (simp add: nth_eq_iff_index_eq)
  have od: "i \<noteq> j \<Longrightarrow> truthy (cmp (pairKey (c ! i) (c ! j))) \<Longrightarrow>
      truthy (cmp (pairKey (c ! j) (c ! i))) \<Longrightarrow>
      to_number (cmp (pairKey (c ! i) (c ! j)))
        = js_div (Num 1) (to_number (cmp (pairKey (c ! j) (c ! i))))"
    using assms(2,3,4) ne unfolding directionsAgree_def by (meson nth_mem)
  consider "i < j" | "j < i" | "i = j" by linarith
  then show ?thesis
  proof cases
    case 1
    then show ?thesis
      using ne assms(4) by (auto simp: build_upper cellUpper_def entryOf_def)
  next
    case 2
    then show ?thesis
      using ne od assms(3) by (auto simp: build_lower cellLower_def entryOf_def)
  next
    case 3
    then show ?thesis using assms(3) by (simp add: build_diag entryOf_def)
  qed
qed

lemma build_cell_read:
  assumes "distinct c" "directionsAgree c cmp" "i < length c" "j < length c"
  shows "to_number (js_index (buildComparisonMatrix c cmp ! i) j) = entryOf cmp (c ! i) (c ! j)"
  using assms by (simp add: js_index_def build_row_length build_entry)

lemma rowProduct_named:
  assumes "distinct c" "directionsAgree c cmp" "i < length c"
  shows "rowProduct (length c) (buildComparisonMatrix c cmp ! i) = namedProduct (entryOf cmp) c (c ! i)"
proof -
  have "rowProduct (length c) (buildComparisonMatrix c cmp ! i)
      = fold (\<lambda>j p. js_mul p (entryOf cmp (c ! i) (c ! j))) [0 ..< length c] (Num 1)"
    unfolding rowProduct_def
    by (rule fold_cong) (simp_all add: build_cell_read[OF assms])
  also have "\<dots> = namedProduct (entryOf cmp) c (c ! i)"
    unfolding namedProduct_def
    using fold_index[of "\<lambda>b p. js_mul p (entryOf cmp (c ! i) b)" c] by simp
  finally show ?thesis .
qed

lemma geometricMeans_named:
  assumes "distinct c" "directionsAgree c cmp"
  shows "geometricMeans (buildComparisonMatrix c cmp) = map (namedMean (entryOf cmp) c) c"
proof -
  have "geometricMeans (buildComparisonMatrix c cmp)
      = map (\<lambda>i. namedMean (entryOf cmp) c (c ! i)) [0 ..< length c]"
    unfolding geometricMeans_def Let_def build_length namedMean_def
    by (rule map_cong) (simp_all add: rowProduct_named[OF assms])
  then show ?thesis by (simp only: map_index_names)
qed

lemma calculateWeights_named:
  assumes "distinct c" "directionsAgree c cmp"
  shows "calculateWeights (buildComparisonMatrix c cmp) = map (namedWeight (entryOf cmp) c) c"
  unfolding calculateWeights_def Let_def geometricMeans_named[OF assms]
  by (simp add: namedWeight_def)

lemma weightedSumRow_named:
  assumes "distinct c" "directionsAgree c cmp" "i < length c"
  shows "weightedSumRow (length c) (buildComparisonMatrix c cmp ! i) (map (namedWeight (entryOf cmp) c) c)
      = namedRow (entryOf cmp) c (c ! i)"
proof -
  have "weightedSumRow (length c) (buildComparisonMatrix c cmp ! i) (map (namedWeight (entryOf cmp) c) c)
      = fold (\<lambda>j s. js_add s (js_mul (entryOf cmp (c ! i) (c ! j)) (namedWeight (entryOf cmp) c (c ! j))))
          [0 ..< length c] (Num 0)"
    unfolding weightedSumRow_def
    by (rule fold_cong) (simp_all add: build_cell_read[OF assms] read_map)
  also have "\<dots> = namedRow (entryOf cmp) c (c ! i)"
    unfolding namedRow_def
    using fold_index[of "\<lambda>b s. js_add s (js_mul (entryOf cmp (c ! i) b) (namedWeight (entryOf cmp) c b))" c]
    by simp
  finally show ?thesis .
qed

lemma calculateLambdaMax_named:
  assumes "distinct c" "directionsAgree c cmp"
  shows "calculateLambdaMax (buildComparisonMatrix c cmp) (map (namedWeight (entryOf cmp) c) c)
      = namedLambda (entryOf cmp) c"
proof -
  let ?M = "buildComparisonMatrix c cmp"
  let ?w = "map (namedWeight (entryOf cmp) c) c"
  let ?ws = "map (\<lambda>i. weightedSumRow (length c) (?M ! i) ?w) [0 ..< length c]"
  have "fold (\<lambda>i l. js_add l (js_div (?ws ! i) (to_number (js_index ?w i)))) [0 ..< length c] (Num 0)
      = fold (\<lambda>i l. js_add l (js_div (namedRow (entryOf cmp) c (c ! i)) (namedWeight (entryOf cmp) c (c ! i))))
          [0 ..< length c] (Num 0)"
    by (rule fold_cong) (simp_all add: weightedSumRow_named[OF assms] read_map)
  also have "\<dots> = fold (\<lambda>a l. js_add l (js_div (namedRow (entryOf cmp) c a) (namedWeight (entryOf cmp) c a))) c (Num 0)"
    using fold_index[of "\<lambda>a l. js_add l (js_div (namedRow (entryOf cmp) c a) (namedWeight (entryOf cmp) c a))" c]
    by simp
  finally show ?thesis
    unfolding calculateLambdaMax_def Let_def build_length namedLambda_def by simp
qed

lemma namedProduct_perm: "mset c' = mset c \<Longrightarrow> namedProduct E c' a = namedProduct E c a"
  unfolding namedProduct_def by (rule fold_mul_perm)

lemma namedMean_perm: "mset c' = mset c \<Longrightarrow> namedMean E c' a = namedMean E c a"
proof -
  assume p: "mset c' = mset c"
  show ?thesis unfolding namedMean_def namedProduct_perm[OF p] mset_eq_length[OF p] ..
qed

lemma sumWeights_map: "sumWeights (map g xs) = fold (\<lambda>x s. js_add s (g x)) xs (Num 0)"
  by (simp add: sumWeights_def fold_map comp_def)

lemma namedWeight_perm: "mset c' = mset c \<Longrightarrow> namedWeight E c' a = namedWeight E c a"
proof -
  assume p: "mset c' = mset c"
  have m: "namedMean E c' = namedMean E c" using p by (intro ext namedMean_perm)
  have "sumWeights (map (namedMean E c) c') = sumWeights (map (namedMean E c) c)"
    unfolding sumWeights_map using p by (rule fold_add_perm)
  then show ?thesis by (simp add: namedWeight_def m)
qed

lemma namedRow_perm: "mset c' = mset c \<Longrightarrow> namedRow E c' a = namedRow E c a"
proof -
  assume p: "mset c' = mset c"
  have w: "namedWeight E c' = namedWeight E c" using p by (intro ext namedWeight_perm)
  show ?thesis unfolding namedRow_def w using p by (rule fold_add_perm)
qed

lemma namedLambda_perm: "mset c' = mset c \<Longrightarrow> namedLambda E c' = namedLambda E c"
proof -
  assume p: "mset c' = mset c"
  have w: "namedWeight E c' = namedWeight E c" using p by (intro ext namedWeight_perm)
  have r: "namedRow E c' = namedRow E c" using p by (intro ext namedRow_perm)
  have "fold (\<lambda>a l. js_add l (js_div (namedRow E c a) (namedWeight E c a))) c' (Num 0)
      = fold (\<lambda>a l. js_add l (js_div (namedRow E c a) (namedWeight E c a))) c (Num 0)"
    using p by (rule fold_add_perm)
  then show ?thesis unfolding namedLambda_def w r using mset_eq_length[OF p] by simp
qed

lemma weightsObject_map:
  "k \<le> length c \<Longrightarrow>
   fold (\<lambda>index m. m(c ! index := js_index (map f c) index)) [0 ..< k] Map.empty
     = (\<lambda>s. if s \<in> (\<lambda>i. c ! i) ` {..< k} then Some (f s) else None)"
proof (induction k)
  case 0
  then show ?case by simp
next
  case (Suc k)
  then show ?case by (auto simp: js_index_def lessThan_Suc fun_eq_iff)
qed

lemma weightsObject_names:
  "weightsObject c (map f c) = (\<lambda>s. if s \<in> set c then Some (f s) else None)"
proof -
  have "(\<lambda>i. c ! i) ` {..< length c} = set c"
    using nth_image[of "length c" c] by (simp add: atLeast0LessThan[symmetric] lessThan_atLeast0)
  then show ?thesis unfolding weightsObject_def using weightsObject_map[of "length c" c f] by simp
qed

lemma namedResult_perm: "mset c' = mset c \<Longrightarrow> namedResult E c' = namedResult E c"
proof -
  assume p: "mset c' = mset c"
  have w: "namedWeight E c' = namedWeight E c" using p by (intro ext namedWeight_perm)
  show ?thesis
    unfolding namedResult_def w namedLambda_perm[OF p] mset_eq_length[OF p] mset_eq_setD[OF p] ..
qed

lemma namedProduct_cong:
  assumes "\<forall>a \<in> set c. \<forall>b \<in> set c. E' a b = E a b" "a \<in> set c"
  shows "namedProduct E' c a = namedProduct E c a"
  unfolding namedProduct_def using assms by (intro fold_cong) simp_all

lemma namedMean_cong:
  assumes "\<forall>a \<in> set c. \<forall>b \<in> set c. E' a b = E a b" "a \<in> set c"
  shows "namedMean E' c a = namedMean E c a"
  unfolding namedMean_def namedProduct_cong[OF assms] ..

lemma namedWeight_cong:
  assumes "\<forall>a \<in> set c. \<forall>b \<in> set c. E' a b = E a b" "a \<in> set c"
  shows "namedWeight E' c a = namedWeight E c a"
proof -
  have m: "map (namedMean E' c) c = map (namedMean E c) c"
    using assms(1) by (intro map_cong refl namedMean_cong)
  show ?thesis unfolding namedWeight_def namedMean_cong[OF assms] m ..
qed

lemma namedRow_cong:
  assumes "\<forall>a \<in> set c. \<forall>b \<in> set c. E' a b = E a b" "a \<in> set c"
  shows "namedRow E' c a = namedRow E c a"
  unfolding namedRow_def using assms
  by (intro fold_cong refl) (simp add: namedWeight_cong[OF assms(1)])

lemma namedLambda_cong:
  assumes "\<forall>a \<in> set c. \<forall>b \<in> set c. E' a b = E a b"
  shows "namedLambda E' c = namedLambda E c"
proof -
  have f: "fold (\<lambda>a l. js_add l (js_div (namedRow E' c a) (namedWeight E' c a))) c (Num 0)
      = fold (\<lambda>a l. js_add l (js_div (namedRow E c a) (namedWeight E c a))) c (Num 0)"
    by (intro fold_cong refl) (simp add: namedRow_cong[OF assms] namedWeight_cong[OF assms])
  show ?thesis unfolding namedLambda_def f ..
qed

lemma namedResult_cong:
  assumes "\<forall>a \<in> set c. \<forall>b \<in> set c. E' a b = E a b"
  shows "namedResult E' c = namedResult E c"
proof -
  have w: "(\<lambda>s. if s \<in> set c then Some (namedWeight E' c s) else None)
      = (\<lambda>s. if s \<in> set c then Some (namedWeight E c s) else None)"
    by (rule ext) (simp add: namedWeight_cong[OF assms])
  show ?thesis unfolding namedResult_def namedLambda_cong[OF assms] w ..
qed

lemma calculateAHPWeights_named:
  assumes "distinct c" "directionsAgree c cmp"
  shows "calculateAHPWeights c cmp = namedResult (entryOf cmp) c"
  unfolding calculateAHPWeights_def Let_def calculateWeights_named[OF assms]
    calculateConsistencyRatio_def build_length calculateLambdaMax_named[OF assms]
    weightsObject_names namedResult_def
  by simp

section \<open>Evaluation on concrete inputs\<close>

lemmas build_eval = buildComparisonMatrix_def fillPair_def pairKey_def setCell_def upt_rec



lemma eval_build_duplicate:
  "buildComparisonMatrix [''A'', ''A'', ''B''] Map.empty
     = [[Num 1, Num 1, Num 1], [Num 1, Num 1, Num 1], [Num 1, Num 1, Num 1]]"
  by (simp add: build_eval numeral_3_eq_3)

lemmas weightArray_eval = calculateWeights_def geometricMeans_def rowProduct_def sumWeights_def
  js_index_def upt_rec



lemma eval_weights_ones3:
  "calculateWeights [[Num 1, Num 1, Num 1], [Num 1, Num 1, Num 1], [Num 1, Num 1, Num 1]]
     = [Num (1 / 3), Num (1 / 3), Num (1 / 3)]"
  by (simp add: weightArray_eval)


lemma eval_object3: "weightsObject [a, b, c] [x, y, z] = [a \<mapsto> x, b \<mapsto> y, c \<mapsto> z]"
  by (simp add: weightsObject_def js_index_def upt_rec)




section \<open>The computation in exact arithmetic\<close>

text \<open>
  With exact arithmetic the module computes the textbook quantities. For a matrix
  of positive entries the weights are the row geometric means divided by their
  sum, they are positive and sum to \<open>1\<close>; the built matrix is reciprocal; the
  consistency ratio is non-negative, because \<open>\<lambda>max \<ge> n\<close> for a positive reciprocal
  matrix; and the result does not depend on the order of the criteria. In double
  precision these hold up to rounding, as far as the properties further below
  state.
\<close>

lemma exact_weights_geometric_mean:
  assumes "length matrix = n" and "1 \<le> n"
    and "\<forall>i < n. length (matrix ! i) = n \<and> (\<forall>j < n. pos (matrix ! i ! j))"
  shows "calculateWeights matrix =
      map (\<lambda>i. Num ((\<Prod>j < n. val (matrix ! i ! j)) powr (1 / real n)
                     / (\<Sum>k < n. (\<Prod>j < n. val (matrix ! k ! j)) powr (1 / real n))))
        [0 ..< n] \<and>
    (\<forall>w \<in> set (calculateWeights matrix). fin w \<and> 0 \<le> val w) \<and>
    sumWeights (calculateWeights matrix) = Num 1 \<and>
    (n = 1 \<longrightarrow> calculateWeights matrix = [Num 1])"
proof -
  define gm where "gm = (\<lambda>i. (\<Prod>j < n. val (matrix ! i ! j)) powr (1 / real n))"
  have h: "\<forall>i < n. n \<le> length (matrix ! i) \<and> (\<forall>j < n. pos (matrix ! i ! j))"
    using assms(3) by simp
  have w: "calculateWeights matrix = map (\<lambda>i. Num (gm i / (\<Sum>k < n. gm k))) [0 ..< n]"
    unfolding gm_def using assms(1) h by (rule calculateWeights_pos(1))
  have tpos: "0 < (\<Sum>k < n. gm k)"
    unfolding gm_def using assms(1) h by (rule calculateWeights_pos(3)) (use assms(2) in simp)
  have gpos: "0 < gm i" if "i < n" for i
    unfolding gm_def using assms(1) h that by (rule calculateWeights_pos(4))
  have nonneg: "\<forall>w \<in> set (calculateWeights matrix). fin w \<and> 0 \<le> val w"
    unfolding w using tpos gpos by (auto simp: less_imp_le)
  have "sumWeights (calculateWeights matrix) = Num (\<Sum>i < n. gm i / (\<Sum>k < n. gm k))"
    unfolding w by (rule sumWeights_Num)
  also have "(\<Sum>i < n. gm i / (\<Sum>k < n. gm k)) = (\<Sum>i < n. gm i) / (\<Sum>k < n. gm k)"
    by (rule sum_divide_distrib[symmetric])
  also have "\<dots> = 1" using tpos by simp
  finally have total: "sumWeights (calculateWeights matrix) = Num 1" .
  have one: "calculateWeights matrix = [Num 1]" if "n = 1"
  proof -
    have "0 < gm 0" using gpos that by simp
    then show ?thesis unfolding w using that by simp
  qed
  show ?thesis using w nonneg total one unfolding gm_def by blast
qed

lemma exact_matrix_reciprocal:
  assumes "positiveJudgments criteria comparisons"
  shows "length (buildComparisonMatrix criteria comparisons) = length criteria \<and>
    (\<forall>i < length criteria.
       length (buildComparisonMatrix criteria comparisons ! i) = length criteria \<and>
       buildComparisonMatrix criteria comparisons ! i ! i = Num 1) \<and>
    (\<forall>i < length criteria. \<forall>j < length criteria.
       pos (buildComparisonMatrix criteria comparisons ! i ! j) \<and>
       js_mul (buildComparisonMatrix criteria comparisons ! i ! j)
              (buildComparisonMatrix criteria comparisons ! j ! i) = Num 1) \<and>
    (\<forall>j < length criteria. \<forall>i < j.
       (comparisons (pairKey (criteria ! i) (criteria ! j)) \<noteq> None \<longrightarrow>
          buildComparisonMatrix criteria comparisons ! i ! j
            = to_number (comparisons (pairKey (criteria ! i) (criteria ! j))) \<and>
          buildComparisonMatrix criteria comparisons ! j ! i
            = js_div (Num 1) (to_number (comparisons (pairKey (criteria ! i) (criteria ! j))))) \<and>
       (comparisons (pairKey (criteria ! i) (criteria ! j)) = None \<and>
        comparisons (pairKey (criteria ! j) (criteria ! i)) \<noteq> None \<longrightarrow>
          buildComparisonMatrix criteria comparisons ! j ! i
            = to_number (comparisons (pairKey (criteria ! j) (criteria ! i))) \<and>
          buildComparisonMatrix criteria comparisons ! i ! j
            = js_div (Num 1) (to_number (comparisons (pairKey (criteria ! j) (criteria ! i))))) \<and>
       (comparisons (pairKey (criteria ! i) (criteria ! j)) = None \<and>
        comparisons (pairKey (criteria ! j) (criteria ! i)) = None \<longrightarrow>
          buildComparisonMatrix criteria comparisons ! i ! j = Num 1 \<and>
          buildComparisonMatrix criteria comparisons ! j ! i = Num 1))"
proof (intro conjI allI impI)
  show "length (buildComparisonMatrix criteria comparisons) = length criteria"
    by (rule build_length)
next
  fix i assume "i < length criteria"
  then show "length (buildComparisonMatrix criteria comparisons ! i) = length criteria"
    and "buildComparisonMatrix criteria comparisons ! i ! i = Num 1"
    by (simp_all add: build_row_length build_diag)
next
  fix i j assume "i < length criteria" "j < length criteria"
  then show "pos (buildComparisonMatrix criteria comparisons ! i ! j)"
    and "js_mul (buildComparisonMatrix criteria comparisons ! i ! j)
              (buildComparisonMatrix criteria comparisons ! j ! i) = Num 1"
    using assms by (simp_all add: build_positive)
next
  fix j i assume j: "j < length criteria" and i: "i < j"
  have il: "i < length criteria" using i j by simp
  note fw = positive_lookup[OF assms il j]
  note bw = positive_lookup[OF assms j il]
  {
    assume "comparisons (pairKey (criteria ! i) (criteria ! j)) \<noteq> None"
    then show "buildComparisonMatrix criteria comparisons ! i ! j
            = to_number (comparisons (pairKey (criteria ! i) (criteria ! j)))"
      and "buildComparisonMatrix criteria comparisons ! j ! i
            = js_div (Num 1) (to_number (comparisons (pairKey (criteria ! i) (criteria ! j))))"
      using fw i j by (auto simp: build_upper build_lower cellUpper_def cellLower_def)
  }
  {
    assume "comparisons (pairKey (criteria ! i) (criteria ! j)) = None \<and>
        comparisons (pairKey (criteria ! j) (criteria ! i)) \<noteq> None"
    then show "buildComparisonMatrix criteria comparisons ! j ! i
            = to_number (comparisons (pairKey (criteria ! j) (criteria ! i)))"
      and "buildComparisonMatrix criteria comparisons ! i ! j
            = js_div (Num 1) (to_number (comparisons (pairKey (criteria ! j) (criteria ! i))))"
      using bw i j by (auto simp: build_upper build_lower cellUpper_def cellLower_def)
  }
  {
    assume "comparisons (pairKey (criteria ! i) (criteria ! j)) = None \<and>
        comparisons (pairKey (criteria ! j) (criteria ! i)) = None"
    then show "buildComparisonMatrix criteria comparisons ! i ! j = Num 1"
      and "buildComparisonMatrix criteria comparisons ! j ! i = Num 1"
      using i j by (auto simp: build_upper build_lower cellUpper_def cellLower_def)
  }
qed

lemma exact_ratio_nonnegative:
  assumes "positiveJudgments criteria comparisons"
  shows "\<exists>r. consistencyRatio (calculateAHPWeights criteria comparisons) = Num r \<and> 0 \<le> r \<and>
    isConsistent_flag (calculateAHPWeights criteria comparisons) = (r < 0.1)"
proof (cases "length criteria < 3")
  case True
  then show ?thesis
    by (simp add: calculateConsistencyRatio_def calculateAHPWeights_def Let_def build_length
        isConsistent_def)
next
  case False
  let ?M = "buildComparisonMatrix criteria comparisons"
  let ?n = "length criteria"
  let ?w = "calculateWeights ?M"
  define gm where "gm = (\<lambda>i. (\<Prod>j < ?n. val (?M ! i ! j)) powr (1 / real ?n))"
  have n3: "3 \<le> ?n" using False by simp
  have l: "length ?M = ?n" by (rule build_length)
  have h: "\<forall>i < ?n. ?n \<le> length (?M ! i) \<and> (\<forall>j < ?n. pos (?M ! i ! j))"
    using assms by (simp add: build_row_length build_positive)
  have hf: "\<forall>i < ?n. ?n \<le> length (?M ! i) \<and> (\<forall>j < ?n. fin (?M ! i ! j))"
    using h by (simp add: pos_fin)
  have w: "?w = map (\<lambda>i. Num (gm i / (\<Sum>k < ?n. gm k))) [0 ..< ?n]"
    unfolding gm_def using l h by (rule calculateWeights_pos(1))
  have tpos: "0 < (\<Sum>k < ?n. gm k)"
    unfolding gm_def using l h by (rule calculateWeights_pos(3)) (use n3 in auto)
  have gpos: "0 < gm i" if "i < ?n" for i
    unfolding gm_def using l h that by (rule calculateWeights_pos(4))
  have wpos: "fin (?w ! i) \<and> 0 < val (?w ! i)" if "i < ?n" for i
    unfolding w using that tpos gpos by simp
  have lw: "?n \<le> length ?w" unfolding w by simp
  have wnz: "\<forall>i < ?n. fin (?w ! i) \<and> val (?w ! i) \<noteq> 0"
    using wpos by fastforce
  define lam where "lam = (\<Sum>i < ?n. (\<Sum>j < ?n. val (?M ! i ! j) * val (?w ! j)) / val (?w ! i))"
  have cr: "calculateConsistencyRatio ?M ?w
      = Num (((lam / real ?n - real ?n) / (real ?n - 1)) / RI ?n)"
    unfolding lam_def using l hf lw wnz n3 by (rule calculateConsistencyRatio_fin)
  have "real ?n * real ?n \<le> lam"
    unfolding lam_def
  proof (rule lambda_ge_order)
    fix i j assume ij: "i < ?n" "j < ?n"
    show "0 < val (?M ! i ! j)"
      using build_positive(1)[OF assms ij] pos_Num by blast
    have "js_mul (?M ! i ! j) (?M ! j ! i) = Num 1"
      using assms ij by (rule build_positive(2))
    moreover have "?M ! i ! j = Num (val (?M ! i ! j))" "?M ! j ! i = Num (val (?M ! j ! i))"
      using build_positive(1)[OF assms ij] build_positive(1)[OF assms ij(2,1)] pos_Num by blast+
    ultimately show "val (?M ! i ! j) * val (?M ! j ! i) = 1"
      by (metis js_mul.simps(1) jsnum.inject)
  next
    fix i assume "i < ?n"
    then show "0 < val (?w ! i)" using wpos by simp
  qed
  moreover have "0 < real ?n" using n3 by auto
  ultimately have "real ?n \<le> lam / real ?n"
    by (simp only: pos_le_divide_eq)
  then have "0 \<le> (lam / real ?n - real ?n) / (real ?n - 1)"
    using n3 by simp
  then have nonneg: "0 \<le> ((lam / real ?n - real ?n) / (real ?n - 1)) / RI ?n"
    using RI_pos[of ?n] by (rule divide_nonneg_pos)
  define r where "r = ((lam / real ?n - real ?n) / (real ?n - 1)) / RI ?n"
  have "consistencyRatio (calculateAHPWeights criteria comparisons) = Num r"
    unfolding calculateAHPWeights_def Let_def cr r_def by simp
  moreover have "isConsistent_flag (calculateAHPWeights criteria comparisons) = (r < 0.1)"
    unfolding calculateAHPWeights_def Let_def cr r_def by (simp add: isConsistent_def)
  moreover have "0 \<le> r" unfolding r_def by (rule nonneg)
  ultimately show ?thesis by blast
qed

lemma exact_order_invariant:
  assumes "distinct criteria" and "mset criteria' = mset criteria"
    and "directionsAgree criteria comparisons" and "directionsAgree criteria comparisons'"
    and "sameJudgments criteria comparisons' comparisons"
  shows "calculateAHPWeights criteria' comparisons' = calculateAHPWeights criteria comparisons"
proof -
  have s: "set criteria' = set criteria" using assms(2) by (rule mset_eq_setD)
  have d: "distinct criteria'" using assms(1,2) by (metis mset_eq_imp_distinct_iff)
  have o: "directionsAgree criteria' comparisons'"
    using assms(4) unfolding directionsAgree_def s .
  have e: "\<forall>a \<in> set criteria. \<forall>b \<in> set criteria.
      entryOf comparisons' a b = entryOf comparisons a b"
    using assms(5) unfolding sameJudgments_def .
  have "calculateAHPWeights criteria' comparisons' = namedResult (entryOf comparisons') criteria'"
    using d o by (rule calculateAHPWeights_named)
  also have "\<dots> = namedResult (entryOf comparisons') criteria"
    using assms(2) by (rule namedResult_perm)
  also have "\<dots> = namedResult (entryOf comparisons) criteria"
    using e by (rule namedResult_cong)
  also have "\<dots> = calculateAHPWeights criteria comparisons"
    using assms(1,3) by (rule calculateAHPWeights_named[symmetric])
  finally show ?thesis .
qed

lemma exact_weights_positive:
  assumes "positiveJudgments criteria comparisons" and "1 \<le> length criteria"
  shows "length (calculateWeights (buildComparisonMatrix criteria comparisons)) = length criteria \<and>
    pos (sumWeights (geometricMeans (buildComparisonMatrix criteria comparisons))) \<and>
    (\<forall>i < length criteria.
       pos (calculateWeights (buildComparisonMatrix criteria comparisons) ! i) \<and>
       pos (to_number (js_index (calculateWeights (buildComparisonMatrix criteria comparisons)) i)))"
proof -
  let ?M = "buildComparisonMatrix criteria comparisons"
  let ?n = "length criteria"
  define gm where "gm = (\<lambda>i. (\<Prod>j < ?n. val (?M ! i ! j)) powr (1 / real ?n))"
  have l: "length ?M = ?n" by (rule build_length)
  have h: "\<forall>i < ?n. ?n \<le> length (?M ! i) \<and> (\<forall>j < ?n. pos (?M ! i ! j))"
    using assms(1) by (simp add: build_row_length build_positive)
  have w: "calculateWeights ?M = map (\<lambda>i. Num (gm i / (\<Sum>k < ?n. gm k))) [0 ..< ?n]"
    unfolding gm_def using l h by (rule calculateWeights_pos(1))
  have s: "sumWeights (geometricMeans ?M) = Num (\<Sum>k < ?n. gm k)"
    unfolding gm_def using l h by (rule calculateWeights_pos(2))
  have tpos: "0 < (\<Sum>k < ?n. gm k)"
    unfolding gm_def using l h by (rule calculateWeights_pos(3)) (use assms(2) in auto)
  have gpos: "0 < gm i" if "i < ?n" for i
    unfolding gm_def using l h that by (rule calculateWeights_pos(4))
  show ?thesis unfolding w s using tpos gpos by (auto simp: js_index_def)
qed

section \<open>Rounding to the nearest double\<close>

lemma pow2_powr: "pow2 k = 2 powr of_int k"
  by (simp add: pow2_def powr_int)

lemma pow2_pos: "0 < pow2 k"
  by (simp add: pow2_powr)

lemma pow2_add: "pow2 (a + b) = pow2 a * pow2 b"
  by (simp add: pow2_powr powr_add)

lemma pow2_diff: "pow2 (a - b) = pow2 a / pow2 b"
  by (simp add: pow2_powr powr_diff)

lemma pow2_mono: "a \<le> b \<Longrightarrow> pow2 a \<le> pow2 b"
  by (simp add: pow2_powr)

lemma pow2_less: "a < b \<Longrightarrow> pow2 a < pow2 b"
  by (simp add: pow2_powr)

lemma pow2_nat: "pow2 (int n) = 2 ^ n"
  by (simp add: pow2_def)

lemma pow2_le_iff: "pow2 a \<le> pow2 b \<longleftrightarrow> a \<le> b"
  by (simp add: pow2_powr)

lemma pow2_int: "0 \<le> k \<Longrightarrow> pow2 k = of_int (2 ^ nat k)"
  by (simp add: pow2_def)

lemma binade_bounds:
  assumes "x \<noteq> 0"
  shows "pow2 (binade x) \<le> \<bar>x\<bar>" and "\<bar>x\<bar> < pow2 (binade x + 1)"
proof -
  have "0 < \<bar>x\<bar>" using assms by simp
  then have "2 powr real_of_int (binade x) \<le> \<bar>x\<bar> \<and> \<bar>x\<bar> < 2 powr real_of_int (binade x + 1)"
    using floor_log_eq_powr_iff[of "\<bar>x\<bar>" 2 "binade x"] by (simp add: binade_def)
  then show "pow2 (binade x) \<le> \<bar>x\<bar>" and "\<bar>x\<bar> < pow2 (binade x + 1)"
    by (simp_all add: pow2_powr)
qed

lemma binade_eq:
  assumes "pow2 k \<le> \<bar>x\<bar>" "\<bar>x\<bar> < pow2 (k + 1)"
  shows "binade x = k"
proof -
  have "0 < \<bar>x\<bar>" using assms(1) pow2_pos[of k] by linarith
  then show ?thesis
    using floor_log_eq_powr_iff[of "\<bar>x\<bar>" 2 k] assms by (simp add: binade_def pow2_powr)
qed

lemma binade_ge: "pow2 k \<le> \<bar>x\<bar> \<Longrightarrow> k \<le> binade x"
proof -
  assume a: "pow2 k \<le> \<bar>x\<bar>"
  then have "x \<noteq> 0" using pow2_pos[of k] by auto
  then have "\<bar>x\<bar> < pow2 (binade x + 1)" by (rule binade_bounds)
  then have "pow2 k < pow2 (binade x + 1)" using a by linarith
  then have "k < binade x + 1" by (simp add: pow2_powr)
  then show ?thesis by simp
qed

lemma binade_le: "x \<noteq> 0 \<Longrightarrow> \<bar>x\<bar> \<le> pow2 k \<Longrightarrow> binade x \<le> k"
proof -
  assume "x \<noteq> 0" and a: "\<bar>x\<bar> \<le> pow2 k"
  then have "pow2 (binade x) \<le> pow2 k" using binade_bounds(1)[of x] by linarith
  then show ?thesis by (simp add: pow2_le_iff)
qed

lemma round_even_error: "\<bar>of_int (round_even y) - y\<bar> \<le> 1 / 2"
  unfolding round_even_def Let_def by (auto simp: abs_le_iff)


lemma round_even_int: "round_even (of_int m) = m"
  by (simp add: round_even_def)

lemma round_even_ge: "of_int m \<le> y \<Longrightarrow> m \<le> round_even y"
proof -
  assume "of_int m \<le> y"
  then have "m \<le> \<lfloor>y\<rfloor>" by (simp add: le_floor_iff)
  moreover have "\<lfloor>y\<rfloor> \<le> round_even y" by (simp add: round_even_def Let_def)
  ultimately show ?thesis by linarith
qed

lemma round_even_le: "y \<le> of_int m \<Longrightarrow> round_even y \<le> m"
proof -
  assume a: "y \<le> of_int m"
  show ?thesis
  proof (cases "y = of_int m")
    case True
    then show ?thesis by (simp add: round_even_int)
  next
    case False
    then have "y < of_int m" using a by simp
    then have "\<lfloor>y\<rfloor> < m" by (simp add: floor_less_iff)
    moreover have "round_even y \<le> \<lfloor>y\<rfloor> + 1" by (simp add: round_even_def Let_def)
    ultimately show ?thesis by linarith
  qed
qed

lemma fl_cases:
  assumes "x \<noteq> 0"
  defines "u \<equiv> pow2 (max (binade x) (- 1022) - 52)"
  defines "r \<equiv> of_int (round_even (x / u)) * u"
  shows "fl x = (if 2 ^ 1024 \<le> \<bar>r\<bar> then (if 0 < x then PosInf else NegInf) else Num r)"
  using assms(1) unfolding u_def r_def fl_def Let_def by simp

lemma fl_never_NaN: "fl x \<noteq> NaN"
  by (simp add: fl_def Let_def)

lemma fl_Num_less: "fl x = Num r \<Longrightarrow> \<bar>r\<bar> < 2 ^ 1024"
  by (auto simp: fl_def Let_def split: if_splits)

lemma fl_nonneg:
  assumes "0 \<le> x"
  shows "fl x = PosInf \<or> (\<exists>r. fl x = Num r \<and> 0 \<le> r)"
proof (cases "x = 0")
  case True
  then show ?thesis by (simp add: fl_def)
next
  case False
  define u where "u = pow2 (max (binade x) (- 1022) - 52)"
  have u: "0 < u" unfolding u_def by (rule pow2_pos)
  have "0 \<le> x / u" using assms u by simp
  then have "0 \<le> round_even (x / u)" using round_even_ge[of 0 "x / u"] by simp
  then have "0 \<le> of_int (round_even (x / u)) * u" using u by simp
  moreover have "0 < x" using assms False by simp
  ultimately show ?thesis
    using fl_cases[OF False] unfolding u_def by auto
qed

text \<open>A lower bound by a power of two is kept by rounding.\<close>

lemma fl_lower:
  assumes "pow2 k \<le> x" and "- 1022 \<le> k"
  shows "fl x = PosInf \<or> (\<exists>r. fl x = Num r \<and> pow2 k \<le> r)"
proof -
  have xpos: "0 < x" using assms(1) pow2_pos[of k] by linarith
  then have x0: "x \<noteq> 0" by simp
  define E where "E = max (binade x) (- 1022)"
  define u where "u = pow2 (E - 52)"
  have u: "0 < u" unfolding u_def by (rule pow2_pos)
  have kE: "k \<le> E" using binade_ge[of k x] assms(1) xpos unfolding E_def by simp
  have "pow2 E \<le> x"
  proof (cases "binade x \<le> - 1022")
    case True
    then have "E = - 1022" unfolding E_def by simp
    then show ?thesis using assms pow2_mono[of "- 1022" k] by simp
  next
    case False
    then have "E = binade x" unfolding E_def by simp
    then show ?thesis using binade_bounds(1)[OF x0] xpos by simp
  qed
  then have "pow2 E / u \<le> x / u" using u by (simp add: divide_right_mono)
  moreover have "pow2 E / u = of_int (2 ^ 52)"
  proof -
    have "pow2 E / u = pow2 (E - (E - 52))" unfolding u_def by (rule pow2_diff[symmetric])
    also have "\<dots> = pow2 52" by simp
    finally show ?thesis by (simp add: pow2_def)
  qed
  ultimately have "2 ^ 52 \<le> round_even (x / u)" using round_even_ge[of "2 ^ 52" "x / u"] by simp
  then have "of_int (2 ^ 52) * u \<le> of_int (round_even (x / u)) * u"
    using u by (simp only: mult_le_cancel_right_pos of_int_le_iff)
  moreover have "of_int (2 ^ 52) * u = pow2 E"
  proof -
    have "pow2 52 * pow2 (E - 52) = pow2 (52 + (E - 52))" by (rule pow2_add[symmetric])
    then show ?thesis unfolding u_def by (simp add: pow2_def)
  qed
  ultimately have "pow2 k \<le> of_int (round_even (x / u)) * u"
    using pow2_mono[OF kE] by linarith
  then show ?thesis
    using fl_cases[OF x0] xpos unfolding u_def E_def by auto
qed

text \<open>An upper bound by a power of two is kept by rounding, and the result is finite.\<close>

lemma fl_upper:
  assumes "0 \<le> x" and "x \<le> pow2 k" and "- 1074 \<le> k" and "k \<le> 1023"
  shows "\<exists>r. fl x = Num r \<and> 0 \<le> r \<and> r \<le> pow2 k"
proof (cases "x = 0")
  case True
  then show ?thesis using pow2_pos[of k] by (simp add: fl_def less_imp_le)
next
  case False
  then have xpos: "0 < x" using assms(1) by simp
  define E where "E = max (binade x) (- 1022)"
  define u where "u = pow2 (E - 52)"
  define r where "r = of_int (round_even (x / u)) * u"
  have u: "0 < u" unfolding u_def by (rule pow2_pos)
  have "binade x \<le> k" using binade_le[OF False, of k] assms(2) xpos by simp
  then have d: "0 \<le> k - (E - 52)" using assms(3) unfolding E_def by simp
  have "x / u \<le> pow2 k / u" using assms(2) u by (simp add: divide_right_mono)
  also have "pow2 k / u = pow2 (k - (E - 52))" unfolding u_def by (rule pow2_diff[symmetric])
  also have "\<dots> = of_int (2 ^ nat (k - (E - 52)))" using d by (rule pow2_int)
  finally have "round_even (x / u) \<le> 2 ^ nat (k - (E - 52))" by (rule round_even_le)
  then have "r \<le> of_int (2 ^ nat (k - (E - 52))) * u"
    unfolding r_def using u by (simp only: mult_le_cancel_right_pos of_int_le_iff)
  also have "of_int (2 ^ nat (k - (E - 52))) * u = pow2 (k - (E - 52)) * pow2 (E - 52)"
    unfolding u_def using pow2_int[OF d] by simp
  also have "\<dots> = pow2 (k - (E - 52) + (E - 52))" by (rule pow2_add[symmetric])
  finally have rk: "r \<le> pow2 k" by simp
  have "0 \<le> x / u" using xpos u by simp
  then have "0 \<le> round_even (x / u)" using round_even_ge[of 0 "x / u"] by simp
  then have r0: "0 \<le> r" unfolding r_def using u by simp
  have "pow2 k \<le> pow2 1023" using assms(4) by (rule pow2_mono)
  also have "\<dots> < 2 ^ 1024" by (simp add: pow2_def)
  finally have "\<bar>r\<bar> < 2 ^ 1024" using rk r0 by simp
  then show ?thesis
    using fl_cases[OF False] rk r0 unfolding r_def u_def E_def by auto
qed

lemma fl_overflow:
  assumes "2 ^ 1024 \<le> x"
  shows "fl x = PosInf"
proof -
  have "pow2 1024 \<le> x" using assms by (simp add: pow2_def)
  then have "fl x = PosInf \<or> (\<exists>r. fl x = Num r \<and> pow2 1024 \<le> r)" by (rule fl_lower) simp
  moreover have "\<not> (\<exists>r. fl x = Num r \<and> pow2 1024 \<le> r)"
    using fl_Num_less[of x] by (auto simp: pow2_def)
  ultimately show ?thesis by blast
qed

lemma fl_error:
  assumes "x \<noteq> 0" and "fl x = Num r"
  shows "\<bar>r - x\<bar> \<le> pow2 (max (binade x) (- 1022) - 53)"
proof -
  define u where "u = pow2 (max (binade x) (- 1022) - 52)"
  have u: "0 < u" unfolding u_def by (rule pow2_pos)
  have r: "r = of_int (round_even (x / u)) * u"
    using fl_cases[OF assms(1)] assms(2) unfolding u_def by (auto split: if_splits)
  have "r - x = (of_int (round_even (x / u)) - x / u) * u"
    unfolding r using u by (simp add: field_simps)
  then have "\<bar>r - x\<bar> = \<bar>of_int (round_even (x / u)) - x / u\<bar> * u"
    using u by (simp add: abs_mult)
  also have "\<dots> \<le> (1 / 2) * u"
    using round_even_error[of "x / u"] u by (simp only: mult_le_cancel_right_pos)
  also have "(1 / 2) * u = pow2 (- 1) * pow2 (max (binade x) (- 1022) - 52)"
    unfolding u_def by (simp add: pow2_def)
  also have "\<dots> = pow2 (- 1 + (max (binade x) (- 1022) - 52))" by (rule pow2_add[symmetric])
  finally show ?thesis by (simp add: algebra_simps)
qed


text \<open>The value of \<open>fl\<close> at a number whose binade is known.\<close>

lemma fl_at:
  assumes "pow2 k \<le> \<bar>x\<bar>" and "\<bar>x\<bar> < pow2 (k + 1)" and "- 1022 \<le> k" and "k \<le> 1022"
  shows "fl x = Num (of_int (round_even (x / pow2 (k - 52))) * pow2 (k - 52))"
proof -
  have x0: "x \<noteq> 0" using assms(1) pow2_pos[of k] by auto
  have b: "binade x = k" using assms(1,2) by (rule binade_eq)
  define u where "u = pow2 (k - 52)"
  have u: "0 < u" unfolding u_def by (rule pow2_pos)
  have "\<bar>x\<bar> / u \<le> pow2 (k + 1) / u" using assms(2) u by (simp add: divide_right_mono)
  also have "pow2 (k + 1) / u = pow2 (k + 1 - (k - 52))" unfolding u_def by (rule pow2_diff[symmetric])
  also have "\<dots> = of_int (2 ^ 53)" by (simp add: pow2_def)
  finally have up: "x / u \<le> of_int (2 ^ 53)" and lo: "of_int (- (2 ^ 53)) \<le> x / u"
    using u by (simp_all add: abs_le_iff field_simps)
  have "round_even (x / u) \<le> 2 ^ 53" using up by (rule round_even_le)
  moreover have "- (2 ^ 53) \<le> round_even (x / u)" using lo by (rule round_even_ge)
  ultimately have "\<bar>of_int (round_even (x / u)) :: real\<bar> \<le> 2 ^ 53"
    by (simp add: abs_le_iff)
  then have "\<bar>of_int (round_even (x / u)) * u\<bar> \<le> 2 ^ 53 * u"
    using u by (simp add: abs_mult)
  also have "2 ^ 53 * u = pow2 53 * pow2 (k - 52)" unfolding u_def by (simp add: pow2_def)
  also have "\<dots> = pow2 (53 + (k - 52))" by (rule pow2_add[symmetric])
  also have "\<dots> \<le> pow2 1023" using assms(4) by (intro pow2_mono) simp
  also have "\<dots> < 2 ^ 1024" by (simp add: pow2_def)
  finally have "\<not> 2 ^ 1024 \<le> \<bar>of_int (round_even (x / u)) * u\<bar>" by simp
  then show ?thesis
    using fl_cases[OF x0] assms(3) unfolding b u_def by simp
qed

lemma fl_pow2: "- 1022 \<le> k \<Longrightarrow> k \<le> 1023 \<Longrightarrow> fl (pow2 k) = Num (pow2 k)"
proof -
  assume a: "- 1022 \<le> k" "k \<le> 1023"
  have "fl (pow2 k) = PosInf \<or> (\<exists>r. fl (pow2 k) = Num r \<and> pow2 k \<le> r)"
    using a(1) by (intro fl_lower) simp_all
  moreover have "\<exists>r. fl (pow2 k) = Num r \<and> 0 \<le> r \<and> r \<le> pow2 k"
    using a pow2_pos[of k] by (intro fl_upper) simp_all
  ultimately show ?thesis by auto
qed

lemma fl_one: "fl 1 = Num 1"
  using fl_pow2[of 0] by (simp add: pow2_def)

section \<open>The matrix builder in double precision, cell by cell\<close>

lemma dims_fillPair_ieee: "dims n m \<Longrightarrow> dims n (fillPair_ieee c cmp i j m)"
  by (simp add: fillPair_ieee_def Let_def dims_setCell)

lemma fillPair_nth_ieee:
  assumes "dims n m" "i < n" "j < n" "i \<noteq> j" "a < n" "b < n"
  shows "fillPair_ieee c cmp i j m ! a ! b =
    (if a = i \<and> b = j then cellUpper_ieee c cmp i j
     else if a = j \<and> b = i then cellLower_ieee c cmp i j
     else m ! a ! b)"
  using assms
  by (auto simp: fillPair_ieee_def Let_def cellUpper_ieee_def cellLower_ieee_def setCell_nth[of n] dims_setCell)

lemma dims_inner_ieee:
  "dims n m \<Longrightarrow> dims n (fold (fillPair_ieee c cmp i) js m)"
  by (induction js arbitrary: m) (simp_all add: dims_fillPair_ieee)

lemma inner_nth_ieee:
  assumes "dims n m" "i < n" "\<forall>j \<in> set js. j < n \<and> i \<noteq> j" "a < n" "b < n"
  shows "fold (fillPair_ieee c cmp i) js m ! a ! b =
    (if a = i \<and> b \<in> set js then cellUpper_ieee c cmp i b
     else if b = i \<and> a \<in> set js then cellLower_ieee c cmp i a
     else m ! a ! b)"
  using assms
proof (induction js arbitrary: m)
  case Nil
  then show ?case by simp
next
  case (Cons j js)
  have d: "dims n (fillPair_ieee c cmp i j m)" using Cons.prems(1) by (rule dims_fillPair_ieee)
  have "fold (fillPair_ieee c cmp i) (j # js) m ! a ! b
      = fold (fillPair_ieee c cmp i) js (fillPair_ieee c cmp i j m) ! a ! b" by simp
  also have "\<dots> = (if a = i \<and> b \<in> set js then cellUpper_ieee c cmp i b
     else if b = i \<and> a \<in> set js then cellLower_ieee c cmp i a
     else fillPair_ieee c cmp i j m ! a ! b)"
    using Cons.prems by (intro Cons.IH[OF d]) auto
  also have "\<dots> = (if a = i \<and> b \<in> set (j # js) then cellUpper_ieee c cmp i b
     else if b = i \<and> a \<in> set (j # js) then cellLower_ieee c cmp i a
     else m ! a ! b)"
    using Cons.prems by (auto simp: fillPair_nth_ieee[of n])
  finally show ?case .
qed

lemma dims_outer_ieee:
  "dims n m \<Longrightarrow>
   dims n (fold (\<lambda>i. fold (fillPair_ieee c cmp i) [Suc i ..< n]) is m)"
  by (induction "is" arbitrary: m) (simp_all add: dims_inner_ieee)

lemma outer_nth_ieee:
  assumes "dims n m" "\<forall>i \<in> set is. i < n" "a < n" "b < n"
  shows "fold (\<lambda>i. fold (fillPair_ieee c cmp i) [Suc i ..< n]) is m ! a ! b =
    (if a \<in> set is \<and> a < b then cellUpper_ieee c cmp a b
     else if b \<in> set is \<and> b < a then cellLower_ieee c cmp b a
     else m ! a ! b)"
  using assms
proof (induction "is" arbitrary: m)
  case Nil
  then show ?case by simp
next
  case (Cons i "is")
  let ?m' = "fold (fillPair_ieee c cmp i) [Suc i ..< n] m"
  have d: "dims n ?m'" using Cons.prems(1) by (rule dims_inner_ieee)
  have i: "i < n" using Cons.prems(2) by simp
  have step: "?m' ! a ! b =
    (if a = i \<and> i < b then cellUpper_ieee c cmp i b
     else if b = i \<and> i < a then cellLower_ieee c cmp i a
     else m ! a ! b)"
    using Cons.prems(1,3,4) i by (subst inner_nth_ieee[of n]) auto
  have "fold (\<lambda>i. fold (fillPair_ieee c cmp i) [Suc i ..< n]) (i # is) m ! a ! b
      = fold (\<lambda>i. fold (fillPair_ieee c cmp i) [Suc i ..< n]) is ?m' ! a ! b"
    by simp
  also have "\<dots> = (if a \<in> set is \<and> a < b then cellUpper_ieee c cmp a b
     else if b \<in> set is \<and> b < a then cellLower_ieee c cmp b a
     else ?m' ! a ! b)"
    using Cons.prems by (intro Cons.IH[OF d]) auto
  also have "\<dots> = (if a \<in> set (i # is) \<and> a < b then cellUpper_ieee c cmp a b
     else if b \<in> set (i # is) \<and> b < a then cellLower_ieee c cmp b a
     else m ! a ! b)"
    unfolding step by auto
  finally show ?case .
qed

lemma dims_build_ieee: "dims (length c) (buildComparisonMatrix_ieee c cmp)"
  by (simp add: buildComparisonMatrix_ieee_def Let_def dims_outer_ieee dims_replicate)

lemma build_nth_ieee:
  assumes "a < length c" "b < length c"
  shows "buildComparisonMatrix_ieee c cmp ! a ! b =
    (if a < b then cellUpper_ieee c cmp a b else if b < a then cellLower_ieee c cmp b a else Num 1)"
  using assms
  by (simp add: buildComparisonMatrix_ieee_def Let_def outer_nth_ieee[of "length c"] dims_replicate)

lemma build_length_ieee: "length (buildComparisonMatrix_ieee c cmp) = length c"
  using dims_build_ieee[of c cmp] by (simp add: dims_def)

lemma build_row_length_ieee: "a < length c \<Longrightarrow> length (buildComparisonMatrix_ieee c cmp ! a) = length c"
  using dims_build_ieee[of c cmp] by (rule dims_nth)

lemma build_upper_ieee:
  "i < j \<Longrightarrow> j < length c \<Longrightarrow> buildComparisonMatrix_ieee c cmp ! i ! j = cellUpper_ieee c cmp i j"
  by (simp add: build_nth_ieee)

lemma build_lower_ieee:
  "i < j \<Longrightarrow> j < length c \<Longrightarrow> buildComparisonMatrix_ieee c cmp ! j ! i = cellLower_ieee c cmp i j"
  by (simp add: build_nth_ieee)

lemma build_diag_ieee: "i < length c \<Longrightarrow> buildComparisonMatrix_ieee c cmp ! i ! i = Num 1"
  by (simp add: build_nth_ieee)

section \<open>Rounding at the ends of the range\<close>

lemma fl_zero: "fl 0 = Num 0"
  by (simp add: fl_def)

lemma fl_subnormal:
  assumes "x \<noteq> 0" and "\<bar>x\<bar> < pow2 (- 1022)"
  shows "fl x = Num (of_int (round_even (x / pow2 (- 1074))) * pow2 (- 1074))"
proof -
  have "binade x \<le> - 1022" using binade_le[OF assms(1), of "- 1022"] assms(2) by simp
  then have E: "max (binade x) (- 1022) - 52 = - 1074" by simp
  define u where "u = pow2 (- 1074)"
  have u: "0 < u" unfolding u_def by (rule pow2_pos)
  have "\<bar>x\<bar> / u \<le> pow2 (- 1022) / u" using assms(2) u by (simp add: divide_right_mono)
  also have "pow2 (- 1022) / u = pow2 (- 1022 - (- 1074))" unfolding u_def by (rule pow2_diff[symmetric])
  also have "\<dots> = of_int (2 ^ 52)" by (simp add: pow2_def)
  finally have up: "x / u \<le> of_int (2 ^ 52)" and lo: "of_int (- (2 ^ 52)) \<le> x / u"
    using u by (simp_all add: abs_le_iff field_simps)
  have "round_even (x / u) \<le> 2 ^ 52" using up by (rule round_even_le)
  moreover have "- (2 ^ 52) \<le> round_even (x / u)" using lo by (rule round_even_ge)
  ultimately have "\<bar>of_int (round_even (x / u)) :: real\<bar> \<le> 2 ^ 52"
    by (simp add: abs_le_iff)
  then have "\<bar>of_int (round_even (x / u)) * u\<bar> \<le> 2 ^ 52 * u"
    using u by (simp add: abs_mult)
  also have "2 ^ 52 * u = pow2 52 * pow2 (- 1074)" unfolding u_def by (simp add: pow2_def)
  also have "\<dots> = pow2 (52 + (- 1074))" by (rule pow2_add[symmetric])
  also have "\<dots> \<le> pow2 1023" by (intro pow2_mono) simp
  also have "\<dots> < 2 ^ 1024" by (simp add: pow2_def)
  finally have "\<not> 2 ^ 1024 \<le> \<bar>of_int (round_even (x / u)) * u\<bar>" by simp
  then show ?thesis
    using fl_cases[OF assms(1)] unfolding E u_def by simp
qed

text \<open>The smallest positive double, \<open>2^-1074\<close> (printed \<^verbatim>\<open>5e-324\<close>), and its reciprocal.\<close>

lemma fl_min_subnormal: "fl (1 / 2 ^ 1074) = Num (1 / 2 ^ 1074)"
proof -
  have e: "(1 / 2 ^ 1074 :: real) = pow2 (- 1074)" by (simp add: pow2_def)
  have "\<bar>pow2 (- 1074)\<bar> < pow2 (- 1022)" using pow2_less[of "- 1074" "- 1022"] pow2_pos[of "- 1074"] by simp
  moreover have "pow2 (- 1074) \<noteq> 0" using pow2_pos[of "- 1074"] by simp
  ultimately have "fl (pow2 (- 1074)) = Num (of_int (round_even (pow2 (- 1074) / pow2 (- 1074))) * pow2 (- 1074))"
    by (intro fl_subnormal)
  moreover have "pow2 (- 1074) / pow2 (- 1074) = of_int 1" using pow2_pos[of "- 1074"] by simp
  ultimately show ?thesis unfolding e by (simp only: round_even_int) simp
qed

lemma fl_reciprocal_overflow: "fl_div (Num 1) (Num (1 / 2 ^ 1074)) = PosInf"
proof -
  have "fl (2 ^ 1074) = PosInf" by (rule fl_overflow) simp
  then show ?thesis by (simp add: fl_div_def)
qed

lemmas build_ieee_eval = buildComparisonMatrix_ieee_def fillPair_ieee_def pairKey_def setCell_def upt_rec








section \<open>The value of a rounded number\<close>

lemma round_even_near:
  assumes "\<bar>y - of_int m\<bar> < 1 / 2"
  shows "round_even y = m"
proof -
  have e: "\<bar>of_int (round_even y) - y\<bar> \<le> 1 / 2" by (rule round_even_error)
  have "\<bar>(of_int (round_even y) :: real) - of_int m\<bar> < 1"
    using assms e by linarith
  then have "\<bar>(of_int (round_even y - m) :: real)\<bar> < 1" by simp
  then have "\<bar>round_even y - m\<bar> < 1" by (metis of_int_abs of_int_less_1_iff)
  then show ?thesis by simp
qed

lemma round_even_tie_up:
  assumes "y = of_int m - 1 / 2" and "even m"
  shows "round_even y = m"
proof -
  have f: "\<lfloor>y\<rfloor> = m - 1" unfolding assms(1) by (simp add: floor_eq_iff)
  have d: "y - of_int \<lfloor>y\<rfloor> = 1 / 2" unfolding f unfolding assms(1) by simp
  have "odd (m - 1)" using assms(2) by simp
  then show ?thesis unfolding round_even_def Let_def d unfolding f by simp
qed

lemma round_even_tie_down:
  assumes "y = of_int m + 1 / 2" and "even m"
  shows "round_even y = m"
proof -
  have f: "\<lfloor>y\<rfloor> = m" unfolding assms(1) by (simp add: floor_eq_iff)
  have d: "y - of_int \<lfloor>y\<rfloor> = 1 / 2" unfolding f unfolding assms(1) by simp
  show ?thesis unfolding round_even_def Let_def d unfolding f using assms(2) by simp
qed

text \<open>
  The value of \<open>fl x\<close> for \<open>x\<close> in the binade \<open>[2^k, 2^(k+1))\<close> of the normal range: the
  multiple \<open>m * 2^(k-52)\<close> nearest to \<open>x\<close>, with the even \<open>m\<close> at a tie.
\<close>

lemma fl_value:
  assumes "pow2 k \<le> \<bar>x\<bar>" and "\<bar>x\<bar> < pow2 (k + 1)" and "- 1022 \<le> k" and "k \<le> 1022"
    and "\<bar>x / pow2 (k - 52) - of_int m\<bar> < 1 / 2 \<or>
         even m \<and> (x / pow2 (k - 52) = of_int m - 1 / 2 \<or> x / pow2 (k - 52) = of_int m + 1 / 2)"
  shows "fl x = Num (of_int m * pow2 (k - 52))"
proof -
  have "round_even (x / pow2 (k - 52)) = m"
    using assms(5) round_even_near round_even_tie_up round_even_tie_down by blast
  then show ?thesis using fl_at[OF assms(1-4)] by simp
qed

text \<open>A multiple of the spacing of its own binade is a double: rounding keeps it.\<close>

lemma fl_grid:
  assumes "r = of_int z * pow2 (max (binade r) (- 1022) - 52)" and "\<bar>r\<bar> < 2 ^ 1024"
  shows "fl r = Num r"
proof (cases "r = 0")
  case True
  then show ?thesis by (simp add: fl_zero)
next
  case False
  define u where "u = pow2 (max (binade r) (- 1022) - 52)"
  have u: "0 < u" unfolding u_def by (rule pow2_pos)
  have ru: "r = of_int z * u" unfolding u_def by (rule assms(1))
  have "r / u = of_int z" using u by (subst ru) simp
  then have "of_int (round_even (r / u)) * u = r"
    using ru by (simp only: round_even_int)
  then show ?thesis
    using fl_cases[OF False] assms(2) unfolding u_def by simp
qed

text \<open>Rounding is idempotent: the result of an operation is a double.\<close>

lemma fl_idem:
  assumes "fl x = Num r"
  shows "fl r = Num r"
proof (cases "x = 0")
  case True
  then show ?thesis using assms by (simp add: fl_zero)
next
  case False
  define E where "E = max (binade x) (- 1022)"
  define u where "u = pow2 (E - 52)"
  define m where "m = round_even (x / u)"
  have u: "0 < u" unfolding u_def by (rule pow2_pos)
  have E: "- 1022 \<le> E" unfolding E_def by simp
  have r: "r = of_int m * u" and small: "\<bar>r\<bar> < 2 ^ 1024"
    using fl_cases[OF False] assms unfolding m_def u_def E_def
    by (auto split: if_splits)
  have "\<bar>x\<bar> < pow2 (binade x + 1)" using False by (rule binade_bounds)
  also have "\<dots> \<le> pow2 (E + 1)" unfolding E_def by (intro pow2_mono) simp
  finally have "\<bar>x\<bar> / u < pow2 (E + 1) / u" using u by (simp add: divide_strict_right_mono)
  also have "pow2 (E + 1) / u = pow2 (E + 1 - (E - 52))" unfolding u_def by (rule pow2_diff[symmetric])
  also have "\<dots> = of_int (2 ^ 53)" by (simp add: pow2_def)
  finally have "x / u \<le> of_int (2 ^ 53)" and "of_int (- (2 ^ 53)) \<le> x / u"
    using u by (simp_all add: abs_less_iff field_simps)
  then have "m \<le> 2 ^ 53" and "- (2 ^ 53) \<le> m"
    unfolding m_def using round_even_le round_even_ge by blast+
  then have mb: "\<bar>m\<bar> \<le> 2 ^ 53" by (simp add: abs_le_iff)
  show ?thesis
  proof (cases "r = 0")
    case True
    then show ?thesis by (simp add: fl_zero)
  next
    case r0: False
    have rabs: "\<bar>r\<bar> = of_int \<bar>m\<bar> * u" unfolding r using u by (simp add: abs_mult)
    show ?thesis
    proof (cases "\<bar>m\<bar> = 2 ^ 53")
      case True
      have "\<bar>r\<bar> = pow2 53 * pow2 (E - 52)" unfolding rabs True u_def by (simp add: pow2_def)
      also have "\<dots> = pow2 (53 + (E - 52))" by (rule pow2_add[symmetric])
      also have "53 + (E - 52) = E + 1" by simp
      finally have ra: "\<bar>r\<bar> = pow2 (E + 1)" .
      then have b: "binade r = E + 1"
        using pow2_less[of "E + 1" "E + 1 + 1"] by (intro binade_eq) simp_all
      have mx: "max (binade r) (- 1022) - 52 = E - 51" unfolding b using E by simp
      have "r = of_int (m div 2) * pow2 (E - 51)"
      proof -
        have "even m" using True by (metis even_abs_add_iff even_add even_numeral even_power zero_less_numeral)
        then have "(of_int m :: real) = 2 * of_int (m div 2)" by (metis even_two_times_div_two of_int_mult of_int_numeral)
        moreover have "pow2 (E - 51) = 2 * pow2 (E - 52)" using pow2_add[of 1 "E - 52"] by (simp add: pow2_def)
        ultimately show ?thesis unfolding r u_def by simp
      qed
      then show ?thesis using small mx by (intro fl_grid[of r "m div 2"]) simp_all
    next
      case False
      then have "\<bar>m\<bar> < 2 ^ 53" using mb by simp
      then have "\<bar>m\<bar> \<le> 2 ^ 53 - 1" by simp
      then have "(of_int \<bar>m\<bar> :: real) \<le> of_int (2 ^ 53 - 1)" by (simp only: of_int_le_iff)
      then have "(of_int \<bar>m\<bar> :: real) < 2 ^ 53" by simp
      then have "\<bar>r\<bar> < 2 ^ 53 * u" unfolding rabs using u by simp
      also have "2 ^ 53 * u = pow2 53 * pow2 (E - 52)" unfolding u_def by (simp add: pow2_def)
      also have "\<dots> = pow2 (53 + (E - 52))" by (rule pow2_add[symmetric])
      also have "53 + (E - 52) = E + 1" by simp
      finally have "\<bar>r\<bar> < pow2 (E + 1)" .
      then have "binade r < E + 1"
        using binade_bounds(1)[OF r0] by (metis le_less_trans not_le pow2_mono)
      then have le: "max (binade r) (- 1022) \<le> E" using E by simp
      define d where "d = E - max (binade r) (- 1022)"
      have d0: "0 \<le> d" unfolding d_def using le by simp
      have "u = pow2 (d + (max (binade r) (- 1022) - 52))" unfolding u_def d_def by simp
      also have "\<dots> = pow2 d * pow2 (max (binade r) (- 1022) - 52)" by (rule pow2_add)
      also have "pow2 d = of_int (2 ^ nat d)" using d0 by (rule pow2_int)
      finally have "r = of_int (m * 2 ^ nat d) * pow2 (max (binade r) (- 1022) - 52)"
        unfolding r by simp
      then show ?thesis using small by (rule fl_grid)
    qed
  qed
qed

lemma rnd_idem: "rnd (rnd x) = rnd x"
proof (cases x)
  case (Num a)
  show ?thesis
  proof (cases "fl a")
    case (Num r)
    then show ?thesis using fl_idem[OF Num] \<open>x = Num a\<close> by simp
  qed (simp_all add: \<open>x = Num a\<close>)
qed simp_all

section \<open>The exponent of the root\<close>

text \<open>The exponent \<^verbatim>\<open>1 / n\<close> of the root, for \<open>n \<ge> 1\<close>: a double in \<open>(0, 1]\<close>.\<close>

lemma fl_reciprocal_order:
  assumes "1 \<le> n" and "n \<le> 2 ^ 1000"
  shows "\<exists>e. fl_div (Num 1) (Num (real n)) = Num e \<and> 0 < e \<and> e \<le> 1"
proof -
  have n: "0 < real n" using assms(1) by simp
  have "1 / real n \<le> pow2 0" using assms(1) by (simp add: pow2_def)
  then obtain e where e: "fl (1 / real n) = Num e" "0 \<le> e" "e \<le> pow2 0"
    using fl_upper[of "1 / real n" 0] n by auto
  have "real n \<le> 2 ^ 1000" using assms(2) by (metis of_nat_le_iff of_nat_numeral of_nat_power)
  then have "pow2 (- 1000) \<le> 1 / real n"
    using n by (simp add: pow2_def field_simps)
  then have "fl (1 / real n) = PosInf \<or> (\<exists>r. fl (1 / real n) = Num r \<and> pow2 (- 1000) \<le> r)"
    by (rule fl_lower) simp
  then have "pow2 (- 1000) \<le> e" using e(1) by auto
  then have "0 < e" using pow2_pos[of "- 1000"] by linarith
  then show ?thesis using e n by (simp add: fl_div_def pow2_def)
qed

lemma overflow_weights:
  assumes "0 < v" and "v \<le> 1" and "fl v = Num v" and "fl_div (Num 1) (Num v) = PosInf"
  shows "calculateWeights_ieee [[Num 1, Num v, Num 1], [PosInf, Num 1, Num 1], [Num 1, Num 1, Num 1]]
    = [Num 0, NaN, Num 0]"
proof -
  obtain e where e: "fl_div (Num 1) (Num 3) = Num e" "0 < e" "e \<le> 1"
    using fl_reciprocal_order[of 3] by auto
  have m: "fl_mul (Num 1) (Num 1) = Num 1" "fl_mul (Num 1) (Num v) = Num v"
    "fl_mul (Num v) (Num 1) = Num v" "fl_mul (Num 1) PosInf = PosInf" "fl_mul PosInf (Num 1) = PosInf"
    using assms(3) by (simp_all add: fl_mul_def fl_one inf_times_def)
  have p: "rowProduct_ieee (Suc (Suc (Suc 0))) [Num 1, Num v, Num 1] = Num v"
    "rowProduct_ieee (Suc (Suc (Suc 0))) [PosInf, Num 1, Num 1] = PosInf"
    "rowProduct_ieee (Suc (Suc (Suc 0))) [Num 1, Num 1, Num 1] = Num 1"
    unfolding rowProduct_ieee_def by (simp_all add: upt_rec js_index_def m)
  have "v powr e \<le> 1" using assms(1,2) e(2) by (simp add: powr_le1)
  then have "\<exists>r. fl (v powr e) = Num r \<and> 0 \<le> r \<and> r \<le> pow2 0"
    by (intro fl_upper) (simp_all add: pow2_def)
  then obtain g where g: "fl (v powr e) = Num g" "0 \<le> g" "g \<le> 1"
    by (auto simp: pow2_def)
  have g0: "Math_pow_ieee (Num v) (Num e) = Num g"
    using assms(1) e(2) g(1) by (simp add: Math_pow_ieee_def)
  have g1: "Math_pow_ieee PosInf (Num e) = PosInf"
    using e(2) by (simp add: Math_pow_ieee_def)
  have g2: "Math_pow_ieee (Num 1) (Num e) = Num 1"
    using e(2) by (simp add: Math_pow_ieee_def fl_one)
  have gm: "geometricMeans_ieee [[Num 1, Num v, Num 1], [PosInf, Num 1, Num 1], [Num 1, Num 1, Num 1]]
      = [Num g, PosInf, Num 1]"
    unfolding geometricMeans_ieee_def Let_def
    by (simp add: upt_rec p e(1) g0 g1 g2)
  have "fl g = Num g" using g(1) by (rule fl_idem)
  then have s: "sumWeights_ieee [Num g, PosInf, Num 1] = PosInf"
    by (simp add: sumWeights_ieee_def fl_add_def)
  show ?thesis
    unfolding calculateWeights_ieee_def Let_def gm s
    by (simp add: fl_div_def fl_zero)
qed

section \<open>Ranges of rounded results\<close>

lemma pow2_double: "pow2 (b + 1) = 2 * pow2 b"
proof -
  have "pow2 1 = 2" by (simp add: pow2_def)
  then show ?thesis using pow2_add[of b 1] by simp
qed

lemma inRange_iff: "inRange a b x \<longleftrightarrow> (\<exists>r. x = Num r \<and> pow2 a \<le> r \<and> r \<le> pow2 b)"
  by (cases x) (simp_all add: inRange_def)

lemma inRange_pos: "inRange a b x \<Longrightarrow> pos x"
  using pow2_pos[of a] by (auto simp: inRange_iff)

lemma inRange_weaken: "inRange a b x \<Longrightarrow> a' \<le> a \<Longrightarrow> b \<le> b' \<Longrightarrow> inRange a' b' x"
  using pow2_mono[of a' a] pow2_mono[of b b'] by (auto simp: inRange_iff)

lemma inRange_one: "a \<le> 0 \<Longrightarrow> 0 \<le> b \<Longrightarrow> inRange a b (Num 1)"
  using pow2_mono[of a 0] pow2_mono[of 0 b] by (simp add: inRange_iff pow2_def)

lemma fl_between:
  assumes "pow2 a \<le> x" and "x \<le> pow2 b" and "- 1022 \<le> a" and "b \<le> 1023"
  shows "inRange a b (fl x)"
proof -
  have "0 \<le> x" using assms(1) pow2_pos[of a] by linarith
  moreover have "a \<le> b" using assms(1,2) by (metis order_trans pow2_le_iff)
  ultimately obtain r where r: "fl x = Num r" "0 \<le> r" "r \<le> pow2 b"
    using fl_upper[of x b] assms by auto
  have "fl x = PosInf \<or> (\<exists>r. fl x = Num r \<and> pow2 a \<le> r)"
    using assms(1,3) by (rule fl_lower)
  then show ?thesis using r by (auto simp: inRange_iff)
qed

lemma fl_mul_range:
  assumes "inRange a b x" and "inRange c d y" and "- 1022 \<le> a + c" and "b + d \<le> 1023"
  shows "inRange (a + c) (b + d) (fl_mul x y)"
proof -
  obtain r s where x: "x = Num r" "pow2 a \<le> r" "r \<le> pow2 b"
    and y: "y = Num s" "pow2 c \<le> s" "s \<le> pow2 d"
    using assms(1,2) by (auto simp: inRange_iff)
  have r0: "0 \<le> r" and s0: "0 \<le> s" using x(2) y(2) pow2_pos[of a] pow2_pos[of c] by linarith+
  have "pow2 a * pow2 c \<le> r * s"
    using x(2) y(2) pow2_pos[of a] pow2_pos[of c] by (intro mult_mono) simp_all
  moreover have "r * s \<le> pow2 b * pow2 d"
    using x(3) y(3) r0 s0 pow2_pos[of b] by (intro mult_mono) simp_all
  ultimately have "inRange (a + c) (b + d) (fl (r * s))"
    using assms(3,4) by (intro fl_between) (simp_all add: pow2_add)
  then show ?thesis by (simp add: fl_mul_def x(1) y(1))
qed

lemma fl_div_range:
  assumes "inRange a b x" and "inRange c d y" and "- 1022 \<le> a - d" and "b - c \<le> 1023"
  shows "inRange (a - d) (b - c) (fl_div x y)"
proof -
  obtain r s where x: "x = Num r" "pow2 a \<le> r" "r \<le> pow2 b"
    and y: "y = Num s" "pow2 c \<le> s" "s \<le> pow2 d"
    using assms(1,2) by (auto simp: inRange_iff)
  have r0: "0 < r" and s0: "0 < s" using x(2) y(2) pow2_pos[of a] pow2_pos[of c] by linarith+
  have "pow2 a / pow2 d \<le> r / s"
    using x(2) y(3) s0 pow2_pos[of a] by (intro frac_le) simp_all
  moreover have "r / s \<le> pow2 b / pow2 c"
    using x(3) y(2) r0 pow2_pos[of c] by (intro frac_le) simp_all
  ultimately have "inRange (a - d) (b - c) (fl (r / s))"
    using assms(3,4) by (intro fl_between) (simp_all add: pow2_diff)
  then show ?thesis using s0 by (simp add: fl_div_def x(1) y(1))
qed

text \<open>Adding a number of the range \<open>[2^c, 2^d]\<close> to a sum in \<open>[0, 2^b]\<close>.\<close>

lemma fl_add_range:
  assumes "x = Num r" and "0 \<le> r" and "r \<le> pow2 b" and "inRange c d y"
    and "- 1022 \<le> c" and "d \<le> b" and "b + 1 \<le> 1023"
  shows "inRange c (b + 1) (fl_add x y)"
proof -
  obtain s where y: "y = Num s" "pow2 c \<le> s" "s \<le> pow2 d"
    using assms(4) by (auto simp: inRange_iff)
  have "s \<le> pow2 b" using y(3) pow2_mono[OF assms(6)] by linarith
  then have "r + s \<le> 2 * pow2 b" using assms(3) by linarith
  also have "2 * pow2 b = pow2 (b + 1)" by (rule pow2_double[symmetric])
  finally have "r + s \<le> pow2 (b + 1)" .
  moreover have "pow2 c \<le> r + s" using assms(2) y(2) by linarith
  ultimately have "inRange c (b + 1) (fl (r + s))"
    using assms(5,7) by (intro fl_between) simp_all
  then show ?thesis by (simp add: fl_add_def assms(1) y(1))
qed

lemma pow2_minus: "pow2 (- k) = 1 / pow2 k"
  using pow2_diff[of 0 k] by (simp add: pow2_def)

lemma bounded_lookup:
  assumes "judgmentsWithin lo hi c cmp" "i < length c" "j < length c"
  shows "cmp (pairKey (c ! i) (c ! j)) = None \<or>
    (\<exists>v. cmp (pairKey (c ! i) (c ! j)) = Some v \<and> inRange lo hi v)"
proof (cases "cmp (pairKey (c ! i) (c ! j))")
  case None
  then show ?thesis by simp
next
  case (Some v)
  have "c ! i \<in> set c" "c ! j \<in> set c" using assms(2,3) by simp_all
  then have "case cmp (pairKey (c ! i) (c ! j)) of None \<Rightarrow> True | Some v \<Rightarrow> inRange lo hi v"
    using assms(1) unfolding judgmentsWithin_def by blast
  then show ?thesis using Some by simp
qed

lemma inRange_truthy: "inRange a b v \<Longrightarrow> truthy (Some v)"
  using pow2_pos[of a] by (auto simp: inRange_iff)

lemma reciprocal_range:
  assumes "inRange (- 4) 4 v"
  shows "inRange (- 4) 4 (fl_div (Num 1) v)"
proof -
  have "inRange 0 0 (Num 1)" by (simp add: inRange_one)
  then have "inRange (0 - 4) (0 - (- 4)) (fl_div (Num 1) v)"
    using assms by (rule fl_div_range) simp_all
  then show ?thesis by simp
qed

lemma cells_range:
  assumes "judgmentsWithin (- 4) 4 c cmp" "i < length c" "j < length c"
  shows "inRange (- 4) 4 (cellUpper_ieee c cmp i j)" and "inRange (- 4) 4 (cellLower_ieee c cmp i j)"
  using bounded_lookup[OF assms] bounded_lookup[OF assms(1) assms(3) assms(2)]
  by (auto simp: cellUpper_ieee_def cellLower_ieee_def inRange_truthy reciprocal_range inRange_one)

lemma build_range:
  assumes "judgmentsWithin (- 4) 4 c cmp" "i < length c" "j < length c"
  shows "inRange (- 4) 4 (buildComparisonMatrix_ieee c cmp ! i ! j)"
  using assms cells_range[of c cmp i j] cells_range[of c cmp j i]
  by (simp add: build_nth_ieee inRange_one)

lemma rowProduct_range:
  assumes "n \<le> length row" and "\<forall>j < n. inRange (- 4) 4 (row ! j)" and "n \<le> 255"
  shows "inRange (- (4 * int n)) (4 * int n) (rowProduct_ieee n row)"
  using assms unfolding rowProduct_ieee_def
proof (induction n)
  case 0
  then show ?case by (simp add: inRange_one)
next
  case (Suc n)
  let ?p = "fold (\<lambda>j product. fl_mul product (to_number (js_index row j))) [0..<n] (Num 1)"
  have ih: "inRange (- (4 * int n)) (4 * int n) ?p" using Suc by simp
  have c: "to_number (js_index row n) = row ! n" using Suc.prems(1) by (simp add: js_index_def)
  have r: "inRange (- 4) 4 (row ! n)" using Suc.prems(2) by simp
  have "inRange (- (4 * int n) + (- 4)) (4 * int n + 4) (fl_mul ?p (row ! n))"
    using ih r by (rule fl_mul_range) (use Suc.prems(3) in simp_all)
  then show ?case by (simp add: c algebra_simps)
qed

text \<open>The exponent \<^verbatim>\<open>1 / n\<close>: a double \<open>e\<close> with \<open>0 < e\<close> and \<open>e * n \<le> 2\<close>.\<close>

lemma fl_reciprocal_bound:
  assumes "1 \<le> n" and "n \<le> 2 ^ 1000"
  shows "\<exists>e. fl_div (Num 1) (Num (real n)) = Num e \<and> 0 < e \<and> e * real n \<le> 2"
proof -
  have n: "0 < real n" using assms(1) by simp
  define k where "k = binade (real n)"
  have lo: "pow2 k \<le> real n" and hi: "real n < pow2 (k + 1)"
    using binade_bounds[of "real n"] n unfolding k_def by simp_all
  have "pow2 0 \<le> \<bar>real n\<bar>" using assms(1) by (simp add: pow2_def)
  then have k0: "0 \<le> k" unfolding k_def by (rule binade_ge)
  have "real n \<le> 2 ^ 1000" using assms(2) by (metis of_nat_le_iff of_nat_numeral of_nat_power)
  then have "\<bar>real n\<bar> \<le> pow2 1000" by (simp add: pow2_def)
  then have k1: "k \<le> 1000" unfolding k_def using n by (intro binade_le) simp_all
  have "pow2 (- (k + 1)) \<le> 1 / real n"
  proof -
    have "1 / pow2 (k + 1) \<le> 1 / real n" using hi n by (intro frac_le) simp_all
    then show ?thesis by (simp only: pow2_minus)
  qed
  moreover have "1 / real n \<le> pow2 (- k)"
  proof -
    have "1 / real n \<le> 1 / pow2 k" using lo pow2_pos[of k] by (intro frac_le) simp_all
    then show ?thesis by (simp only: pow2_minus)
  qed
  ultimately have "inRange (- (k + 1)) (- k) (fl (1 / real n))"
    using k0 k1 by (intro fl_between) simp_all
  then obtain e where e: "fl (1 / real n) = Num e" "pow2 (- (k + 1)) \<le> e" "e \<le> pow2 (- k)"
    by (auto simp: inRange_iff)
  have "0 < e" using e(2) pow2_pos[of "- (k + 1)"] by linarith
  moreover have "e * real n \<le> 2"
  proof -
    have "e * real n \<le> pow2 (- k) * pow2 (k + 1)"
      using e(3) hi n \<open>0 < e\<close> by (intro mult_mono) simp_all
    also have "\<dots> = pow2 (- k + (k + 1))" by (rule pow2_add[symmetric])
    also have "\<dots> = 2" by (simp add: pow2_def)
    finally show ?thesis .
  qed
  ultimately show ?thesis using e(1) n by (simp add: fl_div_def)
qed

lemma pow_range:
  assumes "inRange (- (4 * int n)) (4 * int n) p" and "0 < e" and "e * real n \<le> 2"
  shows "inRange (- 8) 8 (Math_pow_ieee p (Num e))"
proof -
  obtain x where x: "p = Num x" "pow2 (- (4 * int n)) \<le> x" "x \<le> pow2 (4 * int n)"
    using assms(1) by (auto simp: inRange_iff)
  have x0: "0 < x" using x(2) pow2_pos[of "- (4 * int n)"] by linarith
  have en: "4 * real n * e \<le> 8" using assms(3) by (simp add: mult.commute)
  have "x powr e \<le> pow2 (4 * int n) powr e"
    using x(3) x0 assms(2) by (intro powr_mono2) simp_all
  also have "\<dots> = 2 powr (4 * real n * e)" by (simp add: pow2_powr powr_powr)
  also have "\<dots> \<le> 2 powr 8" using en by (intro powr_mono) simp_all
  also have "\<dots> = pow2 8" by (simp add: pow2_powr)
  finally have up: "x powr e \<le> pow2 8" .
  have "pow2 (- 8) = 2 powr (- 8)" by (simp add: pow2_powr)
  also have "\<dots> \<le> 2 powr (- (4 * real n * e))" using en by (intro powr_mono) simp_all
  also have "\<dots> = pow2 (- (4 * int n)) powr e" by (simp add: pow2_powr powr_powr)
  also have "\<dots> \<le> x powr e"
    using x(2) assms(2) pow2_pos[of "- (4 * int n)"] by (intro powr_mono2) simp_all
  finally have lo: "pow2 (- 8) \<le> x powr e" .
  have "inRange (- 8) 8 (fl (x powr e))" using lo up by (rule fl_between) simp_all
  then show ?thesis using x0 assms(2) by (simp add: Math_pow_ieee_def x(1))
qed

lemma geometricMeans_range:
  assumes "length m = n" and "\<forall>i < n. n \<le> length (m ! i) \<and> (\<forall>j < n. inRange (- 4) 4 (m ! i ! j))"
    and "1 \<le> n" and "n \<le> 255"
  shows "length (geometricMeans_ieee m) = n"
    and "\<forall>i < n. inRange (- 8) 8 (geometricMeans_ieee m ! i)"
proof -
  have "n \<le> 2 ^ 1000" using assms(4) by (rule order_trans) simp
  then obtain e where e: "fl_div (Num 1) (Num (real n)) = Num e" "0 < e" "e * real n \<le> 2"
    using fl_reciprocal_bound[OF assms(3)] by blast
  show "length (geometricMeans_ieee m) = n"
    by (simp add: geometricMeans_ieee_def Let_def assms(1))
  show "\<forall>i < n. inRange (- 8) 8 (geometricMeans_ieee m ! i)"
  proof (intro allI impI)
    fix i assume i: "i < n"
    have "inRange (- (4 * int n)) (4 * int n) (rowProduct_ieee n (m ! i))"
      using assms(2,4) i by (intro rowProduct_range) simp_all
    then have "inRange (- 8) 8 (Math_pow_ieee (rowProduct_ieee n (m ! i)) (Num e))"
      using e(2,3) by (rule pow_range)
    then show "inRange (- 8) 8 (geometricMeans_ieee m ! i)"
      using i by (simp add: geometricMeans_ieee_def Let_def assms(1) e(1))
  qed
qed

text \<open>The running sum of \<^verbatim>\<open>reduce\<close>: at most doubled by every term.\<close>

lemma sum_fold_range:
  assumes "\<forall>w \<in> set ws. inRange (- 8) 8 w" and "inRange (- 8) (8 + k) acc"
    and "k + int (length ws) \<le> 1000" and "0 \<le> k"
  shows "inRange (- 8) (8 + k + int (length ws)) (fold (\<lambda>w acc. fl_add acc w) ws acc)"
  using assms
proof (induction ws arbitrary: acc k)
  case Nil
  then show ?case by simp
next
  case (Cons w ws)
  obtain a where a: "acc = Num a" "pow2 (- 8) \<le> a" "a \<le> pow2 (8 + k)"
    using Cons.prems(2) by (auto simp: inRange_iff)
  have a0: "0 \<le> a" using a(2) pow2_pos[of "- 8"] by linarith
  have w: "inRange (- 8) 8 w" using Cons.prems(1) by simp
  have step: "inRange (- 8) (8 + k + 1) (fl_add acc w)"
    using a(1) a0 a(3) w by (rule fl_add_range) (use Cons.prems(3,4) in simp_all)
  have "inRange (- 8) (8 + (k + 1) + int (length ws)) (fold (\<lambda>w acc. fl_add acc w) ws (fl_add acc w))"
    using Cons.prems step by (intro Cons.IH) (simp_all add: add.assoc)
  then show ?case by (simp add: algebra_simps)
qed

lemma sumWeights_range:
  assumes "\<forall>w \<in> set ws. inRange (- 8) 8 w" and "ws \<noteq> []" and "length ws \<le> 255"
  shows "inRange (- 8) (8 + int (length ws)) (sumWeights_ieee ws)"
proof -
  obtain w ws' where ws: "ws = w # ws'" using assms(2) by (cases ws) auto
  have w: "inRange (- 8) 8 w" using assms(1) ws by simp
  obtain s where s: "w = Num s" "pow2 (- 8) \<le> s" "s \<le> pow2 8"
    using w by (auto simp: inRange_iff)
  have "inRange (- 8) 8 (fl s)" using s(2,3) by (rule fl_between) simp_all
  then have first: "inRange (- 8) (8 + 0) (fl_add (Num 0) w)"
    by (simp add: fl_add_def s(1))
  have "inRange (- 8) (8 + 0 + int (length ws')) (fold (\<lambda>w acc. fl_add acc w) ws' (fl_add (Num 0) w))"
    using assms(1,3) first unfolding ws by (intro sum_fold_range) simp_all
  then have "inRange (- 8) (8 + int (length ws)) (fold (\<lambda>w acc. fl_add acc w) ws' (fl_add (Num 0) w))"
    unfolding ws by (rule inRange_weaken) simp_all
  then show ?thesis by (simp add: sumWeights_ieee_def ws)
qed

lemma weights_range:
  assumes "length m = n" and "\<forall>i < n. n \<le> length (m ! i) \<and> (\<forall>j < n. inRange (- 4) 4 (m ! i ! j))"
    and "1 \<le> n" and "n \<le> 255"
  shows "length (calculateWeights_ieee m) = n"
    and "inRange (- 8) (8 + int n) (sumWeights_ieee (geometricMeans_ieee m))"
    and "\<forall>i < n. inRange (- (16 + int n)) 16 (calculateWeights_ieee m ! i)"
proof -
  note g = geometricMeans_range[OF assms]
  have gs: "\<forall>w \<in> set (geometricMeans_ieee m). inRange (- 8) 8 w"
    using g by (auto simp: in_set_conv_nth)
  have ne: "geometricMeans_ieee m \<noteq> []" using g(1) assms(3) by auto
  have "inRange (- 8) (8 + int (length (geometricMeans_ieee m))) (sumWeights_ieee (geometricMeans_ieee m))"
    using gs ne by (rule sumWeights_range) (simp add: g(1) assms(4))
  then show s: "inRange (- 8) (8 + int n) (sumWeights_ieee (geometricMeans_ieee m))"
    by (simp add: g(1))
  show "length (calculateWeights_ieee m) = n"
    by (simp add: calculateWeights_ieee_def Let_def g(1))
  show "\<forall>i < n. inRange (- (16 + int n)) 16 (calculateWeights_ieee m ! i)"
  proof (intro allI impI)
    fix i assume i: "i < n"
    have "inRange (- 8 - (8 + int n)) (8 - (- 8))
        (fl_div (geometricMeans_ieee m ! i) (sumWeights_ieee (geometricMeans_ieee m)))"
      using g(2) i s by (intro fl_div_range) (use assms(4) in simp_all)
    then show "inRange (- (16 + int n)) 16 (calculateWeights_ieee m ! i)"
      using i by (simp add: calculateWeights_ieee_def Let_def g(1))
  qed
qed

section \<open>Reciprocity under rounding\<close>

text \<open>In the normal range the rounding error is at most \<open>2^-53\<close> of the value.\<close>

lemma fl_relative:
  assumes "pow2 (- 1022) \<le> \<bar>x\<bar>" and "fl x = Num r"
  shows "\<bar>r - x\<bar> \<le> \<bar>x\<bar> / 2 ^ 53"
proof -
  have x0: "x \<noteq> 0" using assms(1) pow2_pos[of "- 1022"] by auto
  have "- 1022 \<le> binade x" using assms(1) by (rule binade_ge)
  then have m: "max (binade x) (- 1022) - 53 = binade x + (- 53)" by simp
  have "\<bar>r - x\<bar> \<le> pow2 (binade x + (- 53))"
    using fl_error[OF x0 assms(2)] unfolding m .
  also have "\<dots> = pow2 (binade x) * pow2 (- 53)" by (rule pow2_add)
  also have "\<dots> \<le> \<bar>x\<bar> * pow2 (- 53)"
    using binade_bounds(1)[OF x0] pow2_pos[of "- 53"] by (intro mult_right_mono) simp_all
  also have "\<dots> = \<bar>x\<bar> / 2 ^ 53" by (simp add: pow2_def)
  finally show ?thesis .
qed

text \<open>
  A judgment \<open>v\<close> of the normal range and its rounded reciprocal \<^verbatim>\<open>1 / v\<close>: the
  product is \<open>1\<close> up to one rounding error, and up to three when it is itself computed.
\<close>

lemma reciprocal_pair:
  assumes "inRange (- 1022) 1022 v"
  shows "inRange (- 1022) 1022 (fl_div (Num 1) v)"
    and "\<bar>val v * val (fl_div (Num 1) v) - 1\<bar> \<le> 1 / 2 ^ 53"
    and "\<exists>p. fl_mul v (fl_div (Num 1) v) = Num p \<and> \<bar>p - 1\<bar> \<le> 1 / 2 ^ 51"
proof -
  obtain r where r: "v = Num r" "pow2 (- 1022) \<le> r" "r \<le> pow2 1022"
    using assms by (auto simp: inRange_iff)
  have r0: "0 < r" using r(2) pow2_pos[of "- 1022"] by linarith
  have "inRange 0 0 (Num 1)" by (simp add: inRange_one)
  then have "inRange (0 - 1022) (0 - (- 1022)) (fl_div (Num 1) v)"
    using assms by (rule fl_div_range) simp_all
  then show q: "inRange (- 1022) 1022 (fl_div (Num 1) v)" by simp
  then obtain q where q': "fl_div (Num 1) v = Num q" "pow2 (- 1022) \<le> q" "q \<le> pow2 1022"
    by (auto simp: inRange_iff)
  have fq: "fl (1 / r) = Num q" using q'(1) r0 by (simp add: fl_div_def r(1))
  have "pow2 (- 1022) \<le> 1 / r"
  proof -
    have "1 / pow2 1022 \<le> 1 / r" using r(3) r0 by (intro frac_le) simp_all
    then show ?thesis by (simp only: pow2_minus)
  qed
  then have "pow2 (- 1022) \<le> \<bar>1 / r\<bar>" using r0 by simp
  then have "\<bar>q - 1 / r\<bar> \<le> \<bar>1 / r\<bar> / 2 ^ 53" using fq by (rule fl_relative)
  then have "\<bar>q - 1 / r\<bar> * r \<le> (1 / r / 2 ^ 53) * r"
    using r0 by (intro mult_right_mono) simp_all
  moreover have "\<bar>q - 1 / r\<bar> * r = \<bar>r * q - 1\<bar>"
  proof -
    have "\<bar>q - 1 / r\<bar> * r = \<bar>q - 1 / r\<bar> * \<bar>r\<bar>" using r0 by simp
    also have "\<dots> = \<bar>(q - 1 / r) * r\<bar>" by (rule abs_mult[symmetric])
    also have "(q - 1 / r) * r = r * q - 1" using r0 by (simp add: field_simps)
    finally show ?thesis .
  qed
  ultimately have e1: "\<bar>r * q - 1\<bar> \<le> 1 / 2 ^ 53" using r0 by simp
  moreover have "val (fl_div (Num 1) v) = q" by (simp add: q'(1))
  moreover have "val v = r" by (simp add: r(1))
  ultimately show "\<bar>val v * val (fl_div (Num 1) v) - 1\<bar> \<le> 1 / 2 ^ 53"
    by simp
  have "(1 / 2 ^ 53 :: real) \<le> 1 / 2" by simp
  then have "\<bar>r * q - 1\<bar> \<le> 1 / 2" using e1 by linarith
  then have "1 / 2 \<le> r * q" and "r * q \<le> 2" by linarith+
  then have lo: "pow2 (- 1) \<le> r * q" and hi: "r * q \<le> pow2 1"
    by (simp_all add: pow2_def)
  then have "inRange (- 1) 1 (fl (r * q))" by (rule fl_between) simp_all
  then obtain p where p: "fl (r * q) = Num p" by (auto simp: inRange_iff)
  have rq0: "r * q \<noteq> 0" using lo pow2_pos[of "- 1"] by auto
  have "\<bar>r * q\<bar> \<le> pow2 1" using hi lo pow2_pos[of "- 1"] by simp
  then have "binade (r * q) \<le> 1" using rq0 by (intro binade_le)
  then have "max (binade (r * q)) (- 1022) - 53 \<le> - 52" by simp
  then have "pow2 (max (binade (r * q)) (- 1022) - 53) \<le> pow2 (- 52)" by (rule pow2_mono)
  then have "\<bar>p - r * q\<bar> \<le> pow2 (- 52)" using fl_error[OF rq0 p] by linarith
  then have "\<bar>p - r * q\<bar> \<le> 1 / 2 ^ 52" by (simp add: pow2_def)
  moreover have "(1 / 2 ^ 52 + 1 / 2 ^ 53 :: real) \<le> 1 / 2 ^ 51" by simp
  ultimately have "\<bar>p - 1\<bar> \<le> 1 / 2 ^ 51" using e1 by linarith
  moreover have "fl_mul v (fl_div (Num 1) v) = Num p"
    unfolding q'(1) unfolding r(1) using p by (simp add: fl_mul_def)
  ultimately show "\<exists>p. fl_mul v (fl_div (Num 1) v) = Num p \<and> \<bar>p - 1\<bar> \<le> 1 / 2 ^ 51"
    by blast
qed

lemma fl_mul_commute: "fl_mul x y = fl_mul y x"
  by (cases x; cases y) (simp_all add: fl_mul_def mult.commute)

lemma cells_reciprocal:
  assumes "judgmentsWithin (- 1022) 1022 c cmp" "i < length c" "j < length c"
  shows "inRange (- 1022) 1022 (cellUpper_ieee c cmp i j)"
    and "inRange (- 1022) 1022 (cellLower_ieee c cmp i j)"
    and "\<bar>val (cellUpper_ieee c cmp i j) * val (cellLower_ieee c cmp i j) - 1\<bar> \<le> 1 / 2 ^ 53"
    and "\<exists>p. fl_mul (cellUpper_ieee c cmp i j) (cellLower_ieee c cmp i j) = Num p \<and>
           \<bar>p - 1\<bar> \<le> 1 / 2 ^ 51"
proof -
  note fw = bounded_lookup[OF assms]
  note bw = bounded_lookup[OF assms(1) assms(3) assms(2)]
  let ?f = "cmp (pairKey (c ! i) (c ! j))"
  let ?b = "cmp (pairKey (c ! j) (c ! i))"
  consider (fwd) v where "?f = Some v" "inRange (- 1022) 1022 v"
    | (bwd) v where "?f = None" "?b = Some v" "inRange (- 1022) 1022 v"
    | (none) "?f = None" "?b = None"
    using fw bw by (cases ?f; cases ?b) auto
  then have "inRange (- 1022) 1022 (cellUpper_ieee c cmp i j) \<and>
    inRange (- 1022) 1022 (cellLower_ieee c cmp i j) \<and>
    \<bar>val (cellUpper_ieee c cmp i j) * val (cellLower_ieee c cmp i j) - 1\<bar> \<le> 1 / 2 ^ 53 \<and>
    (\<exists>p. fl_mul (cellUpper_ieee c cmp i j) (cellLower_ieee c cmp i j) = Num p \<and>
           \<bar>p - 1\<bar> \<le> 1 / 2 ^ 51)"
  proof cases
    case fwd
    then have u: "cellUpper_ieee c cmp i j = v" and l: "cellLower_ieee c cmp i j = fl_div (Num 1) v"
      using inRange_truthy[OF fwd(2)] by (simp_all add: cellUpper_ieee_def cellLower_ieee_def)
    show ?thesis unfolding u l using reciprocal_pair[OF fwd(2)] fwd(2) by blast
  next
    case bwd
    then have u: "cellUpper_ieee c cmp i j = fl_div (Num 1) v" and l: "cellLower_ieee c cmp i j = v"
      using inRange_truthy[OF bwd(3)] by (simp_all add: cellUpper_ieee_def cellLower_ieee_def)
    show ?thesis unfolding u l
      using reciprocal_pair[OF bwd(3)] bwd(3) by (simp add: mult.commute fl_mul_commute[of _ v])
  next
    case none
    then have u: "cellUpper_ieee c cmp i j = Num 1" and l: "cellLower_ieee c cmp i j = Num 1"
      by (simp_all add: cellUpper_ieee_def cellLower_ieee_def)
    show ?thesis unfolding u l by (simp add: inRange_one fl_mul_def fl_one)
  qed
  then show "inRange (- 1022) 1022 (cellUpper_ieee c cmp i j)"
    and "inRange (- 1022) 1022 (cellLower_ieee c cmp i j)"
    and "\<bar>val (cellUpper_ieee c cmp i j) * val (cellLower_ieee c cmp i j) - 1\<bar> \<le> 1 / 2 ^ 53"
    and "\<exists>p. fl_mul (cellUpper_ieee c cmp i j) (cellLower_ieee c cmp i j) = Num p \<and>
           \<bar>p - 1\<bar> \<le> 1 / 2 ^ 51"
    by blast+
qed

lemma build_reciprocal:
  assumes "judgmentsWithin (- 1022) 1022 c cmp" "i < length c" "j < length c"
  shows "pos (buildComparisonMatrix_ieee c cmp ! i ! j)"
    and "\<bar>val (buildComparisonMatrix_ieee c cmp ! i ! j) * val (buildComparisonMatrix_ieee c cmp ! j ! i) - 1\<bar>
           \<le> 1 / 2 ^ 53"
    and "\<exists>p. fl_mul (buildComparisonMatrix_ieee c cmp ! i ! j) (buildComparisonMatrix_ieee c cmp ! j ! i) = Num p \<and>
           \<bar>p - 1\<bar> \<le> 1 / 2 ^ 51"
proof -
  note a = cells_reciprocal[OF assms]
  note b = cells_reciprocal[OF assms(1) assms(3) assms(2)]
  show "pos (buildComparisonMatrix_ieee c cmp ! i ! j)"
    using assms(2,3) a(1) b(2) by (auto simp: build_nth_ieee dest: inRange_pos)
  show "\<bar>val (buildComparisonMatrix_ieee c cmp ! i ! j) * val (buildComparisonMatrix_ieee c cmp ! j ! i) - 1\<bar>
           \<le> 1 / 2 ^ 53"
    using assms(2,3) a(3) b(3) by (auto simp: build_nth_ieee mult.commute)
  show "\<exists>p. fl_mul (buildComparisonMatrix_ieee c cmp ! i ! j) (buildComparisonMatrix_ieee c cmp ! j ! i) = Num p \<and>
           \<bar>p - 1\<bar> \<le> 1 / 2 ^ 51"
  proof -
    consider "i < j" | "j < i" | "i = j" by linarith
    then show ?thesis
    proof cases
      case 1
      then show ?thesis using assms(2,3) a(4) by (simp add: build_nth_ieee)
    next
      case 2
      have "fl_mul (cellLower_ieee c cmp j i) (cellUpper_ieee c cmp j i)
          = fl_mul (cellUpper_ieee c cmp j i) (cellLower_ieee c cmp j i)"
        by (rule fl_mul_commute)
      then show ?thesis using 2 assms(2,3) b(4) by (simp add: build_nth_ieee)
    next
      case 3
      have "fl_mul (Num 1) (Num 1) = Num 1" by (simp add: fl_mul_def fl_one)
      then show ?thesis using 3 assms(2) by (simp add: build_nth_ieee)
    qed
  qed
qed

section \<open>The rounded sum of the weights\<close>







section \<open>Zero judgments and cells by criterion name\<close>

lemma fillPair_zero_ieee:
  assumes "cmp k = Some (Num 0)"
  shows "fillPair_ieee c (cmp(k := None)) i j m = fillPair_ieee c cmp i j m"
  using assms by (auto simp: fillPair_ieee_def Let_def)

lemma build_zero_ieee:
  assumes "cmp k = Some (Num 0)"
  shows "buildComparisonMatrix_ieee c (cmp(k := None)) = buildComparisonMatrix_ieee c cmp"
proof -
  have "fillPair_ieee c (cmp(k := None)) = fillPair_ieee c cmp"
    using fillPair_zero_ieee[of cmp k, OF assms] by (intro ext)
  then show ?thesis by (simp add: buildComparisonMatrix_ieee_def)
qed

lemma truthy_nonzero: "truthy x \<Longrightarrow> to_number x \<noteq> Num 0"
  by (cases x rule: truthy.cases) simp_all


section \<open>Seven criteria without judgments\<close>
































lemma fl_tenth: "fl (1 / 10) = Num (3602879701896397 / 36028797018963968)"
proof -
  have "fl (1 / 10) = Num (of_int 7205759403792794 * pow2 (- 4 - 52))"
    by (rule fl_value) (simp_all add: pow2_def)
  then show ?thesis by (simp add: pow2_def)
qed











section \<open>Properties of the weight calculator\<close>




section \<open>Properties of the matrix builder\<close>

text \<open>
  Claim C2, as the code has it. When every judgment the builder can read lies
  between \<open>2^-1022\<close> and \<open>2^1022\<close>, \<^verbatim>\<open>buildComparisonMatrix\<close> returns an \<open>n \<times> n\<close>
  matrix with ones on the diagonal and all entries strictly positive; the
  product \<open>M[i][j] * M[j][i]\<close> differs from \<open>1\<close> by at most \<open>2^-53\<close>, and by at most
  \<open>2^-51\<close> when it is itself computed in doubles (so by less than \<open>1e-9\<close>). For
  \<open>i < j\<close> the two cells are one looked-up value and its rounded reciprocal
  \<^verbatim>\<open>1 / value\<close>: the forward key when it is present, else the reverse key; with
  neither present both cells are \<open>1\<close>.
\<close>

theorem buildComparisonMatrix_reciprocal:
  assumes "judgmentsWithin (- 1022) 1022 criteria comparisons"
  shows "length (buildComparisonMatrix_ieee criteria comparisons) = length criteria \<and>
    (\<forall>i < length criteria.
       length (buildComparisonMatrix_ieee criteria comparisons ! i) = length criteria \<and>
       buildComparisonMatrix_ieee criteria comparisons ! i ! i = Num 1) \<and>
    (\<forall>i < length criteria. \<forall>j < length criteria.
       pos (buildComparisonMatrix_ieee criteria comparisons ! i ! j) \<and>
       \<bar>val (buildComparisonMatrix_ieee criteria comparisons ! i ! j)
          * val (buildComparisonMatrix_ieee criteria comparisons ! j ! i) - 1\<bar> \<le> 1 / 2 ^ 53 \<and>
       (\<exists>p. fl_mul (buildComparisonMatrix_ieee criteria comparisons ! i ! j)
                   (buildComparisonMatrix_ieee criteria comparisons ! j ! i) = Num p \<and>
            \<bar>p - 1\<bar> \<le> 1 / 2 ^ 51)) \<and>
    (\<forall>j < length criteria. \<forall>i < j.
       (comparisons (pairKey (criteria ! i) (criteria ! j)) \<noteq> None \<longrightarrow>
          buildComparisonMatrix_ieee criteria comparisons ! i ! j
            = to_number (comparisons (pairKey (criteria ! i) (criteria ! j))) \<and>
          buildComparisonMatrix_ieee criteria comparisons ! j ! i
            = fl_div (Num 1) (to_number (comparisons (pairKey (criteria ! i) (criteria ! j))))) \<and>
       (comparisons (pairKey (criteria ! i) (criteria ! j)) = None \<and>
        comparisons (pairKey (criteria ! j) (criteria ! i)) \<noteq> None \<longrightarrow>
          buildComparisonMatrix_ieee criteria comparisons ! j ! i
            = to_number (comparisons (pairKey (criteria ! j) (criteria ! i))) \<and>
          buildComparisonMatrix_ieee criteria comparisons ! i ! j
            = fl_div (Num 1) (to_number (comparisons (pairKey (criteria ! j) (criteria ! i))))) \<and>
       (comparisons (pairKey (criteria ! i) (criteria ! j)) = None \<and>
        comparisons (pairKey (criteria ! j) (criteria ! i)) = None \<longrightarrow>
          buildComparisonMatrix_ieee criteria comparisons ! i ! j = Num 1 \<and>
          buildComparisonMatrix_ieee criteria comparisons ! j ! i = Num 1))"
proof (intro conjI allI impI)
  show "length (buildComparisonMatrix_ieee criteria comparisons) = length criteria"
    by (rule build_length_ieee)
next
  fix i assume "i < length criteria"
  then show "length (buildComparisonMatrix_ieee criteria comparisons ! i) = length criteria"
    and "buildComparisonMatrix_ieee criteria comparisons ! i ! i = Num 1"
    by (simp_all add: build_row_length_ieee build_diag_ieee)
next
  fix i j assume ij: "i < length criteria" "j < length criteria"
  show "pos (buildComparisonMatrix_ieee criteria comparisons ! i ! j)"
    using assms ij by (rule build_reciprocal(1))
  show "\<bar>val (buildComparisonMatrix_ieee criteria comparisons ! i ! j)
          * val (buildComparisonMatrix_ieee criteria comparisons ! j ! i) - 1\<bar> \<le> 1 / 2 ^ 53"
    using assms ij by (rule build_reciprocal(2))
  show "\<exists>p. fl_mul (buildComparisonMatrix_ieee criteria comparisons ! i ! j)
                   (buildComparisonMatrix_ieee criteria comparisons ! j ! i) = Num p \<and>
            \<bar>p - 1\<bar> \<le> 1 / 2 ^ 51"
    using assms ij by (rule build_reciprocal(3))
next
  fix j i assume j: "j < length criteria" and i: "i < j"
  have il: "i < length criteria" using i j by simp
  note fw = bounded_lookup[OF assms il j]
  note bw = bounded_lookup[OF assms j il]
  {
    assume "comparisons (pairKey (criteria ! i) (criteria ! j)) \<noteq> None"
    then show "buildComparisonMatrix_ieee criteria comparisons ! i ! j
            = to_number (comparisons (pairKey (criteria ! i) (criteria ! j)))"
      and "buildComparisonMatrix_ieee criteria comparisons ! j ! i
            = fl_div (Num 1) (to_number (comparisons (pairKey (criteria ! i) (criteria ! j))))"
      using fw i j
      by (auto simp: build_upper_ieee build_lower_ieee cellUpper_ieee_def cellLower_ieee_def
          inRange_truthy)
  }
  {
    assume "comparisons (pairKey (criteria ! i) (criteria ! j)) = None \<and>
        comparisons (pairKey (criteria ! j) (criteria ! i)) \<noteq> None"
    then show "buildComparisonMatrix_ieee criteria comparisons ! j ! i
            = to_number (comparisons (pairKey (criteria ! j) (criteria ! i)))"
      and "buildComparisonMatrix_ieee criteria comparisons ! i ! j
            = fl_div (Num 1) (to_number (comparisons (pairKey (criteria ! j) (criteria ! i))))"
      using bw i j
      by (auto simp: build_upper_ieee build_lower_ieee cellUpper_ieee_def cellLower_ieee_def
          inRange_truthy)
  }
  {
    assume "comparisons (pairKey (criteria ! i) (criteria ! j)) = None \<and>
        comparisons (pairKey (criteria ! j) (criteria ! i)) = None"
    then show "buildComparisonMatrix_ieee criteria comparisons ! i ! j = Num 1"
      and "buildComparisonMatrix_ieee criteria comparisons ! j ! i = Num 1"
      using i j by (auto simp: build_upper_ieee build_lower_ieee cellUpper_ieee_def cellLower_ieee_def)
  }
qed

theorem buildComparisonMatrix_reciprocal_witness:
  "judgmentsWithin (- 1022) 1022 [''A'', ''B'', ''C''] [''A-B'' \<mapsto> Num 3, ''C-A'' \<mapsto> Num 2] \<and>
   buildComparisonMatrix_ieee [''A'', ''B'', ''C''] [''A-B'' \<mapsto> Num 3, ''C-A'' \<mapsto> Num 2] ! 0 ! 1 = Num 3 \<and>
   buildComparisonMatrix_ieee [''A'', ''B'', ''C''] [''A-B'' \<mapsto> Num 3, ''C-A'' \<mapsto> Num 2] ! 1 ! 0
     = fl_div (Num 1) (Num 3) \<and>
   (\<exists>p. fl_mul (buildComparisonMatrix_ieee [''A'', ''B'', ''C''] [''A-B'' \<mapsto> Num 3, ''C-A'' \<mapsto> Num 2] ! 0 ! 2)
          (buildComparisonMatrix_ieee [''A'', ''B'', ''C''] [''A-B'' \<mapsto> Num 3, ''C-A'' \<mapsto> Num 2] ! 2 ! 0) = Num p \<and>
        \<bar>p - 1\<bar> \<le> 1 / 2 ^ 51)"
proof -
  let ?c = "[''A'', ''B'', ''C'']"
  let ?cmp = "[''A-B'' \<mapsto> Num 3, ''C-A'' \<mapsto> Num 2]"
  have h: "judgmentsWithin (- 1022) 1022 ?c ?cmp"
    by (simp add: judgmentsWithin_def pairKey_def inRange_def pow2_def)
  note t = buildComparisonMatrix_reciprocal[OF h]
  have a: "\<exists>p. fl_mul (buildComparisonMatrix_ieee ?c ?cmp ! 0 ! 2)
      (buildComparisonMatrix_ieee ?c ?cmp ! 2 ! 0) = Num p \<and> \<bar>p - 1\<bar> \<le> 1 / 2 ^ 51"
    using t[THEN conjunct2, THEN conjunct2, THEN conjunct1, rule_format, of 0 2] by simp
  have b: "buildComparisonMatrix_ieee ?c ?cmp ! 0 ! 1 = Num 3 \<and>
           buildComparisonMatrix_ieee ?c ?cmp ! 1 ! 0 = fl_div (Num 1) (Num 3)"
    using t[THEN conjunct2, THEN conjunct2, THEN conjunct2, rule_format, of 1 0, THEN conjunct1]
    by (simp add: pairKey_def)
  show ?thesis using h a b by blast
qed

text \<open>
  The claim as the specification states it, for every positive judgment, fails:
  the reciprocal can overflow. The judgment \<open>2^-1074\<close>, the smallest positive
  double (\<^verbatim>\<open>5e-324\<close>), is stored with the reciprocal \<^verbatim>\<open>Infinity\<close>, and the product
  of the two cells is \<^verbatim>\<open>Infinity\<close>.
\<close>

theorem reciprocal_overflows:
  "positiveJudgments [''A'', ''B''] [''A-B'' \<mapsto> Num (1 / 2 ^ 1074)] \<and>
   fl (1 / 2 ^ 1074) = Num (1 / 2 ^ 1074) \<and>
   buildComparisonMatrix_ieee [''A'', ''B''] [''A-B'' \<mapsto> Num (1 / 2 ^ 1074)]
     = [[Num 1, Num (1 / 2 ^ 1074)], [PosInf, Num 1]] \<and>
   fl_mul (Num (1 / 2 ^ 1074)) PosInf = PosInf"
proof -
  have "buildComparisonMatrix_ieee [''A'', ''B''] [''A-B'' \<mapsto> Num (1 / 2 ^ 1074)]
     = [[Num 1, Num (1 / 2 ^ 1074)], [fl_div (Num 1) (Num (1 / 2 ^ 1074)), Num 1]]"
    by (simp add: build_ieee_eval)
  moreover have "fl_mul (Num (1 / 2 ^ 1074)) PosInf = PosInf"
    by (simp add: fl_mul_def inf_times_def)
  moreover have "positiveJudgments [''A'', ''B''] [''A-B'' \<mapsto> Num (1 / 2 ^ 1074)]"
    by (simp add: positiveJudgments_def pairKey_def)
  ultimately show ?thesis using fl_reciprocal_overflow fl_min_subnormal by simp
qed




text \<open>
  Claim C4, as the code has it. For every criteria list, with or without duplicate
  labels, the builder returns an \<open>n \<times> n\<close> matrix and \<^verbatim>\<open>calculateAHPWeights\<close>
  returns a result: no error is raised.
\<close>

theorem buildComparisonMatrix_any_criteria:
  "buildComparisonMatrix_outcome criteria comparisons
      = Inr (buildComparisonMatrix criteria comparisons) \<and>
   calculateAHPWeights_outcome criteria comparisons
      = Inr (calculateAHPWeights criteria comparisons) \<and>
   length (buildComparisonMatrix criteria comparisons) = length criteria \<and>
   (\<forall>i < length criteria.
      length (buildComparisonMatrix criteria comparisons ! i) = length criteria)"
  by (simp add: buildComparisonMatrix_outcome_def calculateAHPWeights_outcome_def
      build_length build_row_length)

theorem buildComparisonMatrix_any_criteria_witness:
  "length (buildComparisonMatrix [''A'', ''A'', ''B''] Map.empty) = 3 \<and>
   length (buildComparisonMatrix [''A'', ''A'', ''B''] Map.empty ! 1) = 3 \<and>
   buildComparisonMatrix_outcome [''A'', ''A'', ''B''] Map.empty
     = Inr (buildComparisonMatrix [''A'', ''A'', ''B''] Map.empty)"
  using buildComparisonMatrix_any_criteria[of "[''A'', ''A'', ''B'']" Map.empty] by simp

text \<open>
  The claim as the specification states it fails: the list \<open>[A, A, B]\<close> is accepted
  and gives the all-ones matrix; the entry point returns the weight \<open>1/3\<close> for \<open>A\<close>
  and for \<open>B\<close>.
\<close>

theorem duplicate_criteria_accepted:
  "buildComparisonMatrix_outcome [''A'', ''A'', ''B''] Map.empty
     = Inr [[Num 1, Num 1, Num 1], [Num 1, Num 1, Num 1], [Num 1, Num 1, Num 1]] \<and>
   calculateAHPWeights_outcome [''A'', ''A'', ''B''] Map.empty
     = Inr (calculateAHPWeights [''A'', ''A'', ''B''] Map.empty) \<and>
   weights (calculateAHPWeights [''A'', ''A'', ''B''] Map.empty)
     = [''A'' \<mapsto> Num (1 / 3), ''B'' \<mapsto> Num (1 / 3)]"
  unfolding buildComparisonMatrix_outcome_def calculateAHPWeights_outcome_def
    calculateAHPWeights_def Let_def eval_build_duplicate eval_weights_ones3 eval_object3
  by simp

text \<open>
  Claim C10. A judgment whose value is exactly \<open>0\<close>, under whichever key \<open>k\<close>, is
  treated as absent: the call returns, and the matrix is the one built without
  that entry. For a pair \<open>i < j\<close> of which \<open>k\<close> is the forward key, the reverse key
  decides when it holds a truthy value, and otherwise both cells are \<open>1\<close>; for a
  pair of which \<open>k\<close> is the reverse key, the forward key decides in the same way.
  The cell that would have taken the judgment is never \<open>0\<close>.
\<close>

theorem buildComparisonMatrix_zero_judgment:
  assumes "comparisons k = Some (Num 0)"
  shows "buildComparisonMatrix_ieee_outcome criteria comparisons
      = Inr (buildComparisonMatrix_ieee criteria comparisons) \<and>
    buildComparisonMatrix_ieee criteria comparisons
      = buildComparisonMatrix_ieee criteria (comparisons(k := None)) \<and>
    (\<forall>j < length criteria. \<forall>i < j.
       (pairKey (criteria ! i) (criteria ! j) = k \<longrightarrow>
          (if truthy (comparisons (pairKey (criteria ! j) (criteria ! i)))
           then buildComparisonMatrix_ieee criteria comparisons ! j ! i
                  = to_number (comparisons (pairKey (criteria ! j) (criteria ! i))) \<and>
                buildComparisonMatrix_ieee criteria comparisons ! i ! j
                  = fl_div (Num 1) (to_number (comparisons (pairKey (criteria ! j) (criteria ! i))))
           else buildComparisonMatrix_ieee criteria comparisons ! i ! j = Num 1 \<and>
                buildComparisonMatrix_ieee criteria comparisons ! j ! i = Num 1) \<and>
          buildComparisonMatrix_ieee criteria comparisons ! j ! i \<noteq> Num 0) \<and>
       (pairKey (criteria ! j) (criteria ! i) = k \<longrightarrow>
          (if truthy (comparisons (pairKey (criteria ! i) (criteria ! j)))
           then buildComparisonMatrix_ieee criteria comparisons ! i ! j
                  = to_number (comparisons (pairKey (criteria ! i) (criteria ! j))) \<and>
                buildComparisonMatrix_ieee criteria comparisons ! j ! i
                  = fl_div (Num 1) (to_number (comparisons (pairKey (criteria ! i) (criteria ! j))))
           else buildComparisonMatrix_ieee criteria comparisons ! i ! j = Num 1 \<and>
                buildComparisonMatrix_ieee criteria comparisons ! j ! i = Num 1) \<and>
          buildComparisonMatrix_ieee criteria comparisons ! i ! j \<noteq> Num 0))"
proof (intro conjI allI impI)
  show "buildComparisonMatrix_ieee_outcome criteria comparisons
      = Inr (buildComparisonMatrix_ieee criteria comparisons)"
    by (simp add: buildComparisonMatrix_ieee_outcome_def)
  show "buildComparisonMatrix_ieee criteria comparisons
      = buildComparisonMatrix_ieee criteria (comparisons(k := None))"
    using build_zero_ieee[of comparisons k criteria] assms by simp
next
  fix j i assume j: "j < length criteria" and i: "i < j"
    and k: "pairKey (criteria ! i) (criteria ! j) = k"
  let ?rev = "comparisons (pairKey (criteria ! j) (criteria ! i))"
  have f: "\<not> truthy (comparisons (pairKey (criteria ! i) (criteria ! j)))"
    unfolding k using assms by simp
  have up: "buildComparisonMatrix_ieee criteria comparisons ! i ! j
      = (if truthy ?rev then fl_div (Num 1) (to_number ?rev) else Num 1)"
    using i j f by (simp add: build_upper_ieee cellUpper_ieee_def)
  have lo: "buildComparisonMatrix_ieee criteria comparisons ! j ! i
      = (if truthy ?rev then to_number ?rev else Num 1)"
    using i j f by (simp add: build_lower_ieee cellLower_ieee_def)
  show "if truthy ?rev
     then buildComparisonMatrix_ieee criteria comparisons ! j ! i = to_number ?rev \<and>
          buildComparisonMatrix_ieee criteria comparisons ! i ! j = fl_div (Num 1) (to_number ?rev)
     else buildComparisonMatrix_ieee criteria comparisons ! i ! j = Num 1 \<and>
          buildComparisonMatrix_ieee criteria comparisons ! j ! i = Num 1"
    unfolding up lo by simp
  show "buildComparisonMatrix_ieee criteria comparisons ! j ! i \<noteq> Num 0"
    unfolding lo using truthy_nonzero[of ?rev] by simp
next
  fix j i assume j: "j < length criteria" and i: "i < j"
    and k: "pairKey (criteria ! j) (criteria ! i) = k"
  let ?fwd = "comparisons (pairKey (criteria ! i) (criteria ! j))"
  have f: "\<not> truthy (comparisons (pairKey (criteria ! j) (criteria ! i)))"
    unfolding k using assms by simp
  have up: "buildComparisonMatrix_ieee criteria comparisons ! i ! j
      = (if truthy ?fwd then to_number ?fwd else Num 1)"
    using i j f by (simp add: build_upper_ieee cellUpper_ieee_def)
  have lo: "buildComparisonMatrix_ieee criteria comparisons ! j ! i
      = (if truthy ?fwd then fl_div (Num 1) (to_number ?fwd) else Num 1)"
    using i j f by (simp add: build_lower_ieee cellLower_ieee_def)
  show "if truthy ?fwd
     then buildComparisonMatrix_ieee criteria comparisons ! i ! j = to_number ?fwd \<and>
          buildComparisonMatrix_ieee criteria comparisons ! j ! i = fl_div (Num 1) (to_number ?fwd)
     else buildComparisonMatrix_ieee criteria comparisons ! i ! j = Num 1 \<and>
          buildComparisonMatrix_ieee criteria comparisons ! j ! i = Num 1"
    unfolding up lo by simp
  show "buildComparisonMatrix_ieee criteria comparisons ! i ! j \<noteq> Num 0"
    unfolding up using truthy_nonzero[of ?fwd] by simp
qed

theorem buildComparisonMatrix_zero_judgment_witness:
  "[''B-A'' \<mapsto> Num 0, ''A-B'' \<mapsto> Num 5] ''B-A'' = Some (Num 0) \<and>
   buildComparisonMatrix_ieee [''A'', ''B''] [''B-A'' \<mapsto> Num 0, ''A-B'' \<mapsto> Num 5]
     = buildComparisonMatrix_ieee [''A'', ''B''] [''A-B'' \<mapsto> Num 5] \<and>
   buildComparisonMatrix_ieee [''A'', ''B''] [''B-A'' \<mapsto> Num 0, ''A-B'' \<mapsto> Num 5] ! 0 ! 1 = Num 5 \<and>
   buildComparisonMatrix_ieee [''A'', ''B''] [''B-A'' \<mapsto> Num 0, ''A-B'' \<mapsto> Num 5] ! 1 ! 0
     = fl_div (Num 1) (Num 5) \<and>
   [''B-A'' \<mapsto> Num 0] ''B-A'' = Some (Num 0) \<and>
   buildComparisonMatrix_ieee [''A'', ''B''] [''B-A'' \<mapsto> Num 0] ! 0 ! 1 = Num 1 \<and>
   buildComparisonMatrix_ieee [''A'', ''B''] [''B-A'' \<mapsto> Num 0] ! 1 ! 0 = Num 1 \<and>
   [''A-B'' \<mapsto> Num 0, ''B-A'' \<mapsto> Num 5] ''A-B'' = Some (Num 0) \<and>
   buildComparisonMatrix_ieee [''A'', ''B''] [''A-B'' \<mapsto> Num 0, ''B-A'' \<mapsto> Num 5] ! 1 ! 0 = Num 5 \<and>
   buildComparisonMatrix_ieee [''A'', ''B''] [''A-B'' \<mapsto> Num 0, ''B-A'' \<mapsto> Num 5] ! 0 ! 1
     = fl_div (Num 1) (Num 5)"
proof -
  let ?c = "[''A'', ''B'']"
  let ?c1 = "[''B-A'' \<mapsto> Num 0, ''A-B'' \<mapsto> Num 5]"
  let ?c2 = "[''B-A'' \<mapsto> Num 0]"
  let ?c3 = "[''A-B'' \<mapsto> Num 0, ''B-A'' \<mapsto> Num 5]"
  have h1: "?c1 ''B-A'' = Some (Num 0)" and h2: "?c2 ''B-A'' = Some (Num 0)"
    and h3: "?c3 ''A-B'' = Some (Num 0)" by simp_all
  have e: "?c1(''B-A'' := None) = [''A-B'' \<mapsto> Num 5]" by auto
  note t1 = buildComparisonMatrix_zero_judgment[of ?c1 "''B-A''" ?c, OF h1]
  note t2 = buildComparisonMatrix_zero_judgment[of ?c2 "''B-A''" ?c, OF h2]
  note t3 = buildComparisonMatrix_zero_judgment[of ?c3 "''A-B''" ?c, OF h3]
  have a: "buildComparisonMatrix_ieee ?c ?c1 = buildComparisonMatrix_ieee ?c [''A-B'' \<mapsto> Num 5]"
    using t1 unfolding e by blast
  have b: "buildComparisonMatrix_ieee ?c ?c1 ! 0 ! 1 = Num 5 \<and>
      buildComparisonMatrix_ieee ?c ?c1 ! 1 ! 0 = fl_div (Num 1) (Num 5)"
    using t1[THEN conjunct2, THEN conjunct2, rule_format, of 1 0, THEN conjunct2]
    by (simp add: pairKey_def)
  have c: "buildComparisonMatrix_ieee ?c ?c2 ! 0 ! 1 = Num 1 \<and>
      buildComparisonMatrix_ieee ?c ?c2 ! 1 ! 0 = Num 1"
    using t2[THEN conjunct2, THEN conjunct2, rule_format, of 1 0, THEN conjunct2]
    by (simp add: pairKey_def)
  have d: "buildComparisonMatrix_ieee ?c ?c3 ! 1 ! 0 = Num 5 \<and>
      buildComparisonMatrix_ieee ?c ?c3 ! 0 ! 1 = fl_div (Num 1) (Num 5)"
    using t3[THEN conjunct2, THEN conjunct2, rule_format, of 1 0, THEN conjunct1]
    by (simp add: pairKey_def)
  show ?thesis using h1 h2 h3 a b c d by blast
qed

section \<open>Properties of the consistency evaluator\<close>



text \<open>
  Claim C6. For a matrix of order below 3, \<^verbatim>\<open>calculateConsistencyRatio\<close> returns
  exactly \<open>0\<close> whatever the weights; for a criteria list shorter than 3,
  \<^verbatim>\<open>calculateAHPWeights\<close> returns consistency ratio \<open>0\<close> and \<^verbatim>\<open>isConsistent = true\<close>,
  whatever the judgments.
\<close>

theorem consistencyRatio_small_order:
  "(length matrix < 3 \<longrightarrow> calculateConsistencyRatio matrix w = Num 0) \<and>
   (length criteria < 3 \<longrightarrow>
      consistencyRatio (calculateAHPWeights criteria comparisons) = Num 0 \<and>
      isConsistent_flag (calculateAHPWeights criteria comparisons))"
  by (simp add: calculateConsistencyRatio_def calculateAHPWeights_def Let_def build_length
      isConsistent_def)

theorem consistencyRatio_small_order_witness:
  "length [[Num 1, Num 9], [Num (1 / 9), Num 1]] < 3 \<and>
   calculateConsistencyRatio [[Num 1, Num 9], [Num (1 / 9), Num 1]] [Num (9 / 10), Num (1 / 10)] = Num 0 \<and>
   length [''A'', ''B''] < 3 \<and>
   consistencyRatio (calculateAHPWeights [''A'', ''B''] [''A-B'' \<mapsto> Num 9]) = Num 0 \<and>
   isConsistent_flag (calculateAHPWeights [''A'', ''B''] [''A-B'' \<mapsto> Num 9])"
  using consistencyRatio_small_order[of "[[Num 1, Num 9], [Num (1 / 9), Num 1]]"
      "[Num (9 / 10), Num (1 / 10)]" "[''A'', ''B'']" "[''A-B'' \<mapsto> Num 9]"]
  by simp




section \<open>Properties of the entry point\<close>




text \<open>
  Claim C9, as the code has it. With every readable judgment between \<open>1/16\<close> and
  \<open>16\<close> and \<open>1 \<le> n \<le> 255\<close> criteria, the sum by which \<^verbatim>\<open>calculateWeights\<close> divides is
  a strictly positive number, and so is every one of the \<open>n\<close> weights it returns
  for the built matrix, which are the divisors \<^verbatim>\<open>weights[i]\<close> of
  \<^verbatim>\<open>calculateLambdaMax\<close>: no division by zero occurs.
\<close>

theorem weights_strictly_positive:
  assumes "judgmentsWithin (- 4) 4 criteria comparisons"
    and "1 \<le> length criteria" and "length criteria \<le> 255"
  shows "length (calculateWeights_ieee (buildComparisonMatrix_ieee criteria comparisons))
      = length criteria \<and>
    pos (sumWeights_ieee (geometricMeans_ieee (buildComparisonMatrix_ieee criteria comparisons))) \<and>
    (\<forall>i < length criteria.
       pos (calculateWeights_ieee (buildComparisonMatrix_ieee criteria comparisons) ! i) \<and>
       pos (to_number (js_index
              (calculateWeights_ieee (buildComparisonMatrix_ieee criteria comparisons)) i)))"
proof -
  let ?M = "buildComparisonMatrix_ieee criteria comparisons"
  let ?n = "length criteria"
  have l: "length ?M = ?n" by (rule build_length_ieee)
  have h: "\<forall>i < ?n. ?n \<le> length (?M ! i) \<and> (\<forall>j < ?n. inRange (- 4) 4 (?M ! i ! j))"
    using assms(1) by (simp add: build_row_length_ieee build_range)
  note r = weights_range[OF l h assms(2,3)]
  have "pos (sumWeights_ieee (geometricMeans_ieee ?M))" using r(2) by (rule inRange_pos)
  moreover have "pos (calculateWeights_ieee ?M ! i)" if "i < ?n" for i
    using r(3) that inRange_pos by blast
  ultimately show ?thesis using r(1) by (simp add: js_index_def)
qed

theorem weights_strictly_positive_witness:
  "judgmentsWithin (- 4) 4 [''A'', ''B'', ''C''] [''A-B'' \<mapsto> Num 3, ''C-A'' \<mapsto> Num 2] \<and>
   pos (calculateWeights_ieee
     (buildComparisonMatrix_ieee [''A'', ''B'', ''C''] [''A-B'' \<mapsto> Num 3, ''C-A'' \<mapsto> Num 2]) ! 0) \<and>
   pos (sumWeights_ieee (geometricMeans_ieee
     (buildComparisonMatrix_ieee [''A'', ''B'', ''C''] [''A-B'' \<mapsto> Num 3, ''C-A'' \<mapsto> Num 2])))"
proof -
  let ?c = "[''A'', ''B'', ''C'']"
  let ?cmp = "[''A-B'' \<mapsto> Num 3, ''C-A'' \<mapsto> Num 2]"
  have h: "judgmentsWithin (- 4) 4 ?c ?cmp"
    by (simp add: judgmentsWithin_def pairKey_def inRange_def pow2_def)
  have l: "1 \<le> length ?c" "length ?c \<le> 255" by simp_all
  note t = weights_strictly_positive[OF h l]
  have "pos (calculateWeights_ieee (buildComparisonMatrix_ieee ?c ?cmp) ! 0)"
    using t[THEN conjunct2, THEN conjunct2, rule_format, of 0] by simp
  then show ?thesis using h t by blast
qed

text \<open>
  The claim as the specification states it, for every positive judgment, fails.
  With criteria \<open>[A, B, C]\<close> and the single judgment \<open>A-B = 2^-1074\<close>, the cell
  \<open>M[1][0]\<close> is \<^verbatim>\<open>Infinity\<close>, the sum of the row means is \<^verbatim>\<open>Infinity\<close>, and the
  weights are \<open>0\<close>, \<^verbatim>\<open>NaN\<close> and \<open>0\<close>: \<^verbatim>\<open>calculateLambdaMax\<close> divides by zero.
\<close>

theorem tiny_judgment_zero_weight:
  "positiveJudgments [''A'', ''B'', ''C''] [''A-B'' \<mapsto> Num (1 / 2 ^ 1074)] \<and>
   fl (1 / 2 ^ 1074) = Num (1 / 2 ^ 1074) \<and>
   buildComparisonMatrix_ieee [''A'', ''B'', ''C''] [''A-B'' \<mapsto> Num (1 / 2 ^ 1074)]
     = [[Num 1, Num (1 / 2 ^ 1074), Num 1], [PosInf, Num 1, Num 1], [Num 1, Num 1, Num 1]] \<and>
   calculateWeights_ieee
       (buildComparisonMatrix_ieee [''A'', ''B'', ''C''] [''A-B'' \<mapsto> Num (1 / 2 ^ 1074)])
     = [Num 0, NaN, Num 0]"
proof -
  have b: "buildComparisonMatrix_ieee [''A'', ''B'', ''C''] [''A-B'' \<mapsto> Num (1 / 2 ^ 1074)]
     = [[Num 1, Num (1 / 2 ^ 1074), Num 1],
        [fl_div (Num 1) (Num (1 / 2 ^ 1074)), Num 1, Num 1], [Num 1, Num 1, Num 1]]"
    by (simp add: build_ieee_eval numeral_3_eq_3)
  have w: "calculateWeights_ieee
      [[Num 1, Num (1 / 2 ^ 1074), Num 1], [PosInf, Num 1, Num 1], [Num 1, Num 1, Num 1]]
     = [Num 0, NaN, Num 0]"
    using fl_min_subnormal fl_reciprocal_overflow by (intro overflow_weights) simp_all
  have "positiveJudgments [''A'', ''B'', ''C''] [''A-B'' \<mapsto> Num (1 / 2 ^ 1074)]"
    by (simp add: positiveJudgments_def pairKey_def)
  then show ?thesis
    using fl_min_subnormal unfolding b fl_reciprocal_overflow w by simp
qed

end
